theory Spec2Isabelle
  imports Complex_Main "HOL-Library.AList"
begin

section \<open>Numbers, messages and the aggregator's state\<close>

text \<open>
  The aggregator (\<^verbatim>\<open>aggregator.ts\<close>, class \<^verbatim>\<open>MarketAggregator\<close>) works on JavaScript
  numbers. Tick indices are integers, so they are \<^typ>\<open>int\<close> here; prices and the tick
  size are exact rationals; volumes and quantities are integers (of either sign: the code
  accepts whatever number the feed delivers). Non-finite numbers (\<^verbatim>\<open>NaN\<close>, the
  infinities) are outside the model: the only infinities the code itself creates are the
  two sentinels of the best-bid and best-ask scans, which are \<^const>\<open>None\<close> here.

  \<^verbatim>\<open>Math.round\<close> rounds to the nearest integer, a half towards plus infinity. The
  quotient \<^verbatim>\<open>price / tickSize\<close> is the exact one (no floating-point rounding), and a tick
  size of 0 is not meant: the \<^verbatim>\<open>/stream/start\<close> handler refuses it, and where JavaScript
  would produce an infinity or \<^verbatim>\<open>NaN\<close>, division by 0 in HOL gives 0.
\<close>

definition Math_round :: "rat \<Rightarrow> int" where
  "Math_round x = \<lfloor>x + 1 / 2\<rfloor>"

record DepthMessage =
  depth_contractId :: string
  domType :: int
  depth_price :: rat
  depth_volume :: int
  depth_timestamp :: string

record TradeMessage =
  trade_contractId :: string
  trade_price :: rat
  quantity :: int
  aggressorSide :: int
  trade_timestamp :: string

datatype Side = Buy | Sell | NoSide

record TradeData =
  priceTick :: int
  td_price :: rat
  td_volume :: int
  side :: Side
  td_timestamp :: int

record HeatmapColumn =
  col_t :: int
  midTick :: int
  col_bids :: "int list"
  col_asks :: "int list"
  trades :: "TradeData list"

text \<open>
  \<^verbatim>\<open>CONFIG\<close> of \<^verbatim>\<open>config.ts\<close>: both settings are read from the environment with
  \<^verbatim>\<open>parseInt\<close> (defaults 100 and 200) and are taken here as natural numbers.
\<close>

record CONFIG =
  BUCKET_MS :: nat
  PRICE_WINDOW_TICKS :: nat

text \<open>
  A JavaScript \<^verbatim>\<open>Map<number, number>\<close> is an association list in insertion order:
  \<^verbatim>\<open>set\<close> is \<^const>\<open>AList.update\<close> (overwrite in place, or append), \<^verbatim>\<open>delete\<close> is
  \<^const>\<open>AList.delete\<close>, \<^verbatim>\<open>get\<close> is \<^const>\<open>map_of\<close>, \<^verbatim>\<open>keys()\<close> is \<^term>\<open>map fst\<close>,
  \<^verbatim>\<open>size\<close> is \<^const>\<open>length\<close> and \<^verbatim>\<open>clear()\<close> leaves \<^term>\<open>[]\<close>. A \<^verbatim>\<open>Map\<close> never
  holds a key twice, which is \<open>Map_ok\<close>.

  The timer handle \<^verbatim>\<open>intervalId\<close> is \<^const>\<open>True\<close> when a timer is set and
  \<^const>\<open>False\<close> for \<^verbatim>\<open>null\<close>. The callback \<^verbatim>\<open>onColumnGenerated\<close> is not a field: a call
  of it is the column that \<open>bucket\<close> returns.
\<close>

type_synonym NumberMap = "(int \<times> int) list"

definition Map_ok :: "NumberMap \<Rightarrow> bool" where
  "Map_ok m = distinct (map fst m)"

record MarketAggregator =
  contractId :: string
  tickSize :: rat
  bids :: NumberMap
  asks :: NumberMap
  currentBucketTrades :: "TradeData list"
  intervalId :: bool
  lastMidTick :: int

definition MarketAggregator_new :: "string \<Rightarrow> rat \<Rightarrow> MarketAggregator" where
  "MarketAggregator_new cid ts =
     \<lparr>contractId = cid, tickSize = ts, bids = [], asks = [],
      currentBucketTrades = [], intervalId = False, lastMidTick = 0\<rparr>"

definition start :: "MarketAggregator \<Rightarrow> MarketAggregator" where
  "start s = (if intervalId s then s else s\<lparr>intervalId := True\<rparr>)"

definition stop :: "MarketAggregator \<Rightarrow> MarketAggregator" where
  "stop s = (if intervalId s then s\<lparr>intervalId := False\<rparr> else s)"

section \<open>Depth updates and trades\<close>

definition handleDepth :: "MarketAggregator \<Rightarrow> DepthMessage \<Rightarrow> MarketAggregator" where
  "handleDepth s msg =
     (let tick = Math_round (depth_price msg / tickSize s) in
      if domType msg = 6 then s\<lparr>bids := [], asks := []\<rparr>
      else if domType msg = 1 \<or> domType msg = 3 \<or> domType msg = 10 then
        (if depth_volume msg = 0 then s\<lparr>asks := AList.delete tick (asks s)\<rparr>
         else s\<lparr>asks := AList.update tick (depth_volume msg) (asks s)\<rparr>)
      else if domType msg = 2 \<or> domType msg = 4 \<or> domType msg = 9 then
        (if depth_volume msg = 0 then s\<lparr>bids := AList.delete tick (bids s)\<rparr>
         else s\<lparr>bids := AList.update tick (depth_volume msg) (bids s)\<rparr>)
      else s)"

text \<open>
  \<^verbatim>\<open>new Date(msg.timestamp).getTime()\<close> parses a date string; the parser is the
  parameter \<open>getTime\<close>.
\<close>

definition mkTrade :: "(string \<Rightarrow> int) \<Rightarrow> rat \<Rightarrow> TradeMessage \<Rightarrow> TradeData" where
  "mkTrade getTime ts msg =
     \<lparr>priceTick = Math_round (trade_price msg / ts),
      td_price = trade_price msg,
      td_volume = quantity msg,
      side = (if aggressorSide msg = 0 then Buy
              else if aggressorSide msg = 1 then Sell else NoSide),
      td_timestamp = getTime (trade_timestamp msg)\<rparr>"

definition handleTrade ::
  "(string \<Rightarrow> int) \<Rightarrow> MarketAggregator \<Rightarrow> TradeMessage \<Rightarrow> MarketAggregator" where
  "handleTrade getTime s msg =
     s\<lparr>currentBucketTrades := currentBucketTrades s @ [mkTrade getTime (tickSize s) msg]\<rparr>"

section \<open>The bucket\<close>

text \<open>
  The two scans over the keys of the book. \<^const>\<open>None\<close> is the sentinel the scan starts
  from (\<^verbatim>\<open>-Infinity\<close> for bids, \<^verbatim>\<open>Infinity\<close> for asks), which every tick beats.
\<close>

definition bestBid :: "NumberMap \<Rightarrow> int option" where
  "bestBid m =
     fold (\<lambda>t best. case best of None \<Rightarrow> Some t
                      | Some b \<Rightarrow> if t > b then Some t else Some b)
       (map fst m) None"

definition bestAsk :: "NumberMap \<Rightarrow> int option" where
  "bestAsk m =
     fold (\<lambda>t best. case best of None \<Rightarrow> Some t
                      | Some a \<Rightarrow> if t < a then Some t else Some a)
       (map fst m) None"

text \<open>
  The mid tick as \<^verbatim>\<open>bucket\<close> computes it before it decides whether to emit: the
  precedence chain, then the two fallbacks taken when the value is 0.
\<close>

definition resolveMidTick :: "MarketAggregator \<Rightarrow> int" where
  "resolveMidTick s =
     (let bb = bestBid (bids s);
          ba = bestAsk (asks s);
          mid0 =
            (case (bb, ba) of
               (Some b, Some a) \<Rightarrow> Math_round (of_int (b + a) / 2)
             | _ \<Rightarrow>
               if currentBucketTrades s \<noteq> [] then priceTick (last (currentBucketTrades s))
               else (case bb of Some b \<Rightarrow> b
                     | None \<Rightarrow> (case ba of Some a \<Rightarrow> a | None \<Rightarrow> lastMidTick s)));
          mid1 = (case bb of Some b \<Rightarrow> if mid0 = 0 then b else mid0 | None \<Rightarrow> mid0);
          mid2 = (case ba of Some a \<Rightarrow> if mid1 = 0 then a else mid1 | None \<Rightarrow> mid1)
      in mid2)"

text \<open>\<^verbatim>\<open>map.get(t) || 0\<close>: a missing key and a stored 0 both read 0.\<close>

definition get_or_0 :: "NumberMap \<Rightarrow> int \<Rightarrow> int" where
  "get_or_0 m t = (case map_of m t of None \<Rightarrow> 0 | Some v \<Rightarrow> if v = 0 then 0 else v)"

definition window :: "NumberMap \<Rightarrow> int \<Rightarrow> nat \<Rightarrow> int list" where
  "window m startTick windowSize = map (\<lambda>i. get_or_0 m (startTick + int i)) [0..<windowSize]"

text \<open>
  \<^verbatim>\<open>bucket()\<close> returns the new state and the column handed to \<^verbatim>\<open>onColumnGenerated\<close>,
  if the callback is called. \<open>now\<close> is \<^verbatim>\<open>Date.now()\<close>.
\<close>

definition bucket ::
  "CONFIG \<Rightarrow> int \<Rightarrow> MarketAggregator \<Rightarrow> MarketAggregator \<times> HeatmapColumn option" where
  "bucket cfg now s =
     (let mid = resolveMidTick s in
      if mid = 0 then (s, None)
      else
        let windowSize = PRICE_WINDOW_TICKS cfg;
            halfWindow = windowSize div 2;
            startTick = mid - int halfWindow;
            column = \<lparr>col_t = now, midTick = mid,
                      col_bids = window (bids s) startTick windowSize,
                      col_asks = window (asks s) startTick windowSize,
                      trades = currentBucketTrades s\<rparr>
        in (s\<lparr>lastMidTick := mid, currentBucketTrades := []\<rparr>, Some column))"

section \<open>The life of a stream\<close>

text \<open>
  What happens to one aggregator, in order: calls of its public methods and firings of the
  interval timer. JavaScript runs each of them to completion before the next. The timer
  set by \<^verbatim>\<open>start()\<close> calls \<^verbatim>\<open>bucket()\<close>; once \<^verbatim>\<open>stop()\<close> has cleared it, it fires no
  more, so a firing finds \<^verbatim>\<open>intervalId\<close> set. The second component of a step is the
  column handed to the listener, if any.
\<close>

datatype event =
  Start
  | Stop
  | Depth DepthMessage
  | Trade TradeMessage
  | Timer int

definition step ::
  "CONFIG \<Rightarrow> (string \<Rightarrow> int) \<Rightarrow> MarketAggregator \<Rightarrow> event
     \<Rightarrow> MarketAggregator \<times> HeatmapColumn option" where
  "step cfg getTime s e =
     (case e of
        Start \<Rightarrow> (start s, None)
      | Stop \<Rightarrow> (stop s, None)
      | Depth msg \<Rightarrow> (handleDepth s msg, None)
      | Trade msg \<Rightarrow> (handleTrade getTime s msg, None)
      | Timer now \<Rightarrow> if intervalId s then bucket cfg now s else (s, None))"

fun run ::
  "CONFIG \<Rightarrow> (string \<Rightarrow> int) \<Rightarrow> MarketAggregator \<Rightarrow> event list
     \<Rightarrow> MarketAggregator \<times> HeatmapColumn option list" where
  "run cfg getTime s [] = (s, [])"
| "run cfg getTime s (e # es) =
     (case step cfg getTime s e of
        (s', out) \<Rightarrow> (case run cfg getTime s' es of (s'', outs) \<Rightarrow> (s'', out # outs)))"

text \<open>
  The specification's side of the trade buffer, read off a trace of events paired with
  what each emitted: the trades handed to \<^verbatim>\<open>handleTrade\<close> since the last emitted column
  (or since the start, with \<open>acc\<close> the trades pending then), in arrival order.
\<close>

fun trades_since_last_emit ::
  "(string \<Rightarrow> int) \<Rightarrow> rat \<Rightarrow> TradeData list \<Rightarrow> (event \<times> HeatmapColumn option) list
     \<Rightarrow> TradeData list" where
  "trades_since_last_emit getTime ts acc [] = acc"
| "trades_since_last_emit getTime ts acc ((e, out) # r) =
     trades_since_last_emit getTime ts
       (case out of
          Some col \<Rightarrow> []
        | None \<Rightarrow> (case e of Trade msg \<Rightarrow> acc @ [mkTrade getTime ts msg] | _ \<Rightarrow> acc))
       r"

section \<open>The server: sessions, sockets and the stream registry\<close>

text \<open>
  \<^verbatim>\<open>auth.ts\<close> keeps one \<^verbatim>\<open>UserSession\<close> per session id in \<^verbatim>\<open>sessionStore\<close>. The answer of
  the gateway to \<^verbatim>\<open>POST /api/Auth/validate\<close> is an input: the request is rejected (axios
  throws), or it resolves with a \<^verbatim>\<open>ProjectXValidateResponse\<close>. A string is truthy when it
  is not empty.
\<close>

record UserSession =
  userName :: string
  accessToken :: string
  tokenExpiresAt :: int

record ProjectXValidateResponse =
  newToken :: "string option"
  success :: bool

datatype axios_result = Rejected | Resolved ProjectXValidateResponse

definition validateAndRefresh ::
  "axios_result \<Rightarrow> int \<Rightarrow> (string \<times> UserSession) list \<Rightarrow> string
     \<Rightarrow> (string \<times> UserSession) list \<times> string option" where
  "validateAndRefresh res now store sessionId =
     (case map_of store sessionId of
        None \<Rightarrow> (store, None)
      | Some session \<Rightarrow>
          (case res of
             Rejected \<Rightarrow> (store, None)
           | Resolved data \<Rightarrow>
               if success data then
                 (case newToken data of
                    Some tok \<Rightarrow>
                      if tok \<noteq> [] then
                        (AList.update sessionId
                           (session\<lparr>accessToken := tok,
                                     tokenExpiresAt := now + 23 * 60 * 60 * 1000\<rparr>) store,
                         Some tok)
                      else (store, Some (accessToken session))
                  | None \<Rightarrow> (store, Some (accessToken session)))
               else (store, None)))"

text \<open>
  \<^verbatim>\<open>ProjectXSocket\<close> of \<^verbatim>\<open>projectx.ts\<close>: the stored token and the connected flag; the
  SignalR connection itself is the outside world.
\<close>

record ProjectXSocket =
  token :: string
  isConnected :: bool

definition updateToken :: "ProjectXSocket \<Rightarrow> string \<Rightarrow> ProjectXSocket" where
  "updateToken sock tok = sock\<lparr>token := tok\<rparr>"

text \<open>
  The objects that \<^verbatim>\<open>POST /stream/start\<close> creates live on whether or not the registry
  points at them, so they are cells of a heap and the registry \<^verbatim>\<open>streams\<close> maps a session
  id to a cell. A cell holds the socket, the aggregator and the contract id of an
  \<^verbatim>\<open>ActiveStream\<close>, and the session id that the aggregator's callback closes over (the
  session whose clients receive its columns).
\<close>

record ActiveStream =
  socket :: ProjectXSocket
  aggregator :: MarketAggregator
  stream_contractId :: string
  listener_session :: string

definition deref :: "ActiveStream list \<Rightarrow> nat \<Rightarrow> ActiveStream option" where
  "deref h i = (if i < length h then Some (h ! i) else None)"

definition modify :: "nat \<Rightarrow> (ActiveStream \<Rightarrow> ActiveStream) \<Rightarrow> ActiveStream list \<Rightarrow> ActiveStream list" where
  "modify i f h = (if i < length h then h[i := f (h ! i)] else h)"

text \<open>
  A \<^verbatim>\<open>/stream/start\<close> request: the session id of the cookie (if any) and the body. The
  handler is an \<^verbatim>\<open>async\<close> function: it runs until it awaits a promise of the SignalR
  connection, and goes on when that promise settles; other requests, timers and feed
  messages are served in between. \<open>pc\<close> says where a handler waits, or how it ended.
\<close>

record StartRequest =
  rq_sessionId :: "string option"
  rq_contractId :: string
  rq_tickSize :: rat

datatype pc =
  AwaitSocketStop nat
  | AwaitConnectionStart nat
  | AwaitSubscribeDepth nat
  | AwaitSubscribeTrades nat
  | Responded nat
  | Unhandled

record Server =
  sessionStore :: "(string \<times> UserSession) list"
  streams :: "(string \<times> nat) list"
  heap :: "ActiveStream list"
  requests :: "(StartRequest \<times> pc) list"

text \<open>
  The token refresh loop of \<^verbatim>\<open>index.ts\<close>, one iteration: validate the session, and on a
  truthy token store it in the stream's socket. \<open>answers\<close> gives, per session, the gateway's
  answer and the value of \<^verbatim>\<open>Date.now()\<close>.
\<close>

definition refresh_one :: "axios_result \<times> int \<Rightarrow> string \<Rightarrow> nat \<Rightarrow> Server \<Rightarrow> Server" where
  "refresh_one answer sessionId i srv =
     (case validateAndRefresh (fst answer) (snd answer) (sessionStore srv) sessionId of
        (store, tok) \<Rightarrow>
          (case tok of
             Some t \<Rightarrow>
               if t \<noteq> [] then
                 srv\<lparr>sessionStore := store,
                     heap := modify i (\<lambda>st. st\<lparr>socket := updateToken (socket st) t\<rparr>) (heap srv)\<rparr>
               else srv\<lparr>sessionStore := store\<rparr>
           | None \<Rightarrow> srv\<lparr>sessionStore := store\<rparr>))"

fun refresh_loop ::
  "(string \<Rightarrow> axios_result \<times> int) \<Rightarrow> (string \<times> nat) list \<Rightarrow> Server \<Rightarrow> Server" where
  "refresh_loop answers [] srv = srv"
| "refresh_loop answers ((sessionId, i) # entries) srv =
     refresh_loop answers entries (refresh_one (answers sessionId) sessionId i srv)"

definition token_refresh_cycle :: "(string \<Rightarrow> axios_result \<times> int) \<Rightarrow> Server \<Rightarrow> Server" where
  "token_refresh_cycle answers srv = refresh_loop answers (streams srv) srv"

section \<open>The handler of \<^verbatim>\<open>POST /stream/start\<close>\<close>

text \<open>
  After the old stream's socket has stopped: \<^verbatim>\<open>stream.aggregator.stop()\<close> and
  \<^verbatim>\<open>streams.delete(sessionId)\<close>.
\<close>

definition discard_old :: "string \<Rightarrow> nat \<Rightarrow> Server \<Rightarrow> Server" where
  "discard_old sessionId old srv =
     srv\<lparr>heap := modify old (\<lambda>st. st\<lparr>aggregator := stop (aggregator st)\<rparr>) (heap srv),
         streams := AList.delete sessionId (streams srv)\<rparr>"

text \<open>
  The new socket and aggregator, wired to each other, and the call of \<^verbatim>\<open>socket.start()\<close>,
  which awaits the connection (a new socket is not connected).
\<close>

definition create_stream :: "string \<Rightarrow> UserSession \<Rightarrow> StartRequest \<Rightarrow> Server \<Rightarrow> Server \<times> pc" where
  "create_stream sessionId session rq srv =
     (srv\<lparr>heap := heap srv @
           [\<lparr>socket = \<lparr>token = accessToken session, isConnected = False\<rparr>,
             aggregator = MarketAggregator_new (rq_contractId rq) (rq_tickSize rq),
             stream_contractId = rq_contractId rq,
             listener_session = sessionId\<rparr>]\<rparr>,
      AwaitConnectionStart (length (heap srv)))"

text \<open>
  The handler from its first line to its first wait. \<^verbatim>\<open>socket.stop()\<close> of a socket that is
  not connected returns at once, and the handler goes on without waiting for the outside
  world.
\<close>

definition begin_start :: "Server \<Rightarrow> StartRequest \<Rightarrow> Server \<times> pc" where
  "begin_start srv rq =
     (case rq_sessionId rq of
        None \<Rightarrow> (srv, Responded 401)
      | Some sessionId \<Rightarrow>
          (case map_of (sessionStore srv) sessionId of
             None \<Rightarrow> (srv, Responded 401)
           | Some session \<Rightarrow>
               if rq_contractId rq = [] \<or> rq_tickSize rq = 0 then (srv, Responded 400)
               else
                 (case map_of (streams srv) sessionId of
                    None \<Rightarrow> create_stream sessionId session rq srv
                  | Some old \<Rightarrow>
                      (case deref (heap srv) old of
                         None \<Rightarrow> (srv, Unhandled)
                       | Some st \<Rightarrow>
                           if isConnected (socket st) then (srv, AwaitSocketStop old)
                           else create_stream sessionId session rq
                                  (discard_old sessionId old srv)))))"

text \<open>
  The handler from the settling of the promise it waits for (\<open>ok\<close>: fulfilled; otherwise
  rejected) to its next wait or its end. A rejection inside the \<^verbatim>\<open>try\<close> block is answered
  with status 500; a rejection of \<^verbatim>\<open>stream.socket.stop()\<close> is outside it.
\<close>

definition resume :: "Server \<Rightarrow> StartRequest \<Rightarrow> pc \<Rightarrow> bool \<Rightarrow> Server \<times> pc" where
  "resume srv rq p ok =
     (case p of
        AwaitSocketStop old \<Rightarrow>
          if ok then
            (case rq_sessionId rq of
               None \<Rightarrow> (srv, Unhandled)
             | Some sessionId \<Rightarrow>
                 (case map_of (sessionStore srv) sessionId of
                    None \<Rightarrow> (srv, Unhandled)
                  | Some session \<Rightarrow>
                      create_stream sessionId session rq
                        (discard_old sessionId old
                           (srv\<lparr>heap := modify old
                                  (\<lambda>st. st\<lparr>socket := (socket st)\<lparr>isConnected := False\<rparr>\<rparr>)
                                  (heap srv)\<rparr>))))
          else (srv, Unhandled)
      | AwaitConnectionStart new \<Rightarrow>
          if ok then
            (srv\<lparr>heap := modify new (\<lambda>st. st\<lparr>socket := (socket st)\<lparr>isConnected := True\<rparr>\<rparr>)
                             (heap srv)\<rparr>,
             AwaitSubscribeDepth new)
          else (srv, Responded 500)
      | AwaitSubscribeDepth new \<Rightarrow>
          if ok then (srv, AwaitSubscribeTrades new) else (srv, Responded 500)
      | AwaitSubscribeTrades new \<Rightarrow>
          if ok then
            (case rq_sessionId rq of
               None \<Rightarrow> (srv, Unhandled)
             | Some sessionId \<Rightarrow>
                 (srv\<lparr>heap := modify new (\<lambda>st. st\<lparr>aggregator := start (aggregator st)\<rparr>)
                                  (heap srv),
                      streams := AList.update sessionId new (streams srv)\<rparr>,
                  Responded 200))
          else (srv, Responded 500)
      | Responded status \<Rightarrow> (srv, p)
      | Unhandled \<Rightarrow> (srv, p))"

text \<open>
  What the server's event loop serves, one at a time: a \<^verbatim>\<open>/stream/start\<close> request
  arrives; the promise that request \<open>k\<close> waits for settles; the interval timer of the
  aggregator in cell \<open>i\<close> fires; the socket of cell \<open>i\<close> receives a depth or trade message.
  A step returns the column it broadcasts, with the session whose clients get it.
\<close>

datatype server_event =
  StartStream StartRequest
  | Settle nat bool
  | TimerFires nat int
  | GatewayDepth nat DepthMessage
  | GatewayTrade nat TradeMessage

definition server_step ::
  "CONFIG \<Rightarrow> (string \<Rightarrow> int) \<Rightarrow> Server \<Rightarrow> server_event
     \<Rightarrow> Server \<times> (string \<times> HeatmapColumn) option" where
  "server_step cfg getTime srv ev =
     (case ev of
        StartStream rq \<Rightarrow>
          (case begin_start srv rq of
             (srv', p) \<Rightarrow> (srv'\<lparr>requests := requests srv' @ [(rq, p)]\<rparr>, None))
      | Settle k ok \<Rightarrow>
          if k < length (requests srv) then
            (case requests srv ! k of
               (rq, p) \<Rightarrow>
                 (case resume srv rq p ok of
                    (srv', p') \<Rightarrow> (srv'\<lparr>requests := (requests srv')[k := (rq, p')]\<rparr>, None)))
          else (srv, None)
      | TimerFires i now \<Rightarrow>
          (case deref (heap srv) i of
             None \<Rightarrow> (srv, None)
           | Some st \<Rightarrow>
               if intervalId (aggregator st) then
                 (case bucket cfg now (aggregator st) of
                    (a, out) \<Rightarrow>
                      (srv\<lparr>heap := modify i (\<lambda>st. st\<lparr>aggregator := a\<rparr>) (heap srv)\<rparr>,
                       map_option (\<lambda>col. (listener_session st, col)) out))
               else (srv, None))
      | GatewayDepth i msg \<Rightarrow>
          (case deref (heap srv) i of
             None \<Rightarrow> (srv, None)
           | Some st \<Rightarrow>
               if isConnected (socket st) \<and> depth_contractId msg = stream_contractId st then
                 (srv\<lparr>heap := modify i
                        (\<lambda>st. st\<lparr>aggregator := handleDepth (aggregator st) msg\<rparr>) (heap srv)\<rparr>,
                  None)
               else (srv, None))
      | GatewayTrade i msg \<Rightarrow>
          (case deref (heap srv) i of
             None \<Rightarrow> (srv, None)
           | Some st \<Rightarrow>
               if isConnected (socket st) \<and> trade_contractId msg = stream_contractId st then
                 (srv\<lparr>heap := modify i
                        (\<lambda>st. st\<lparr>aggregator := handleTrade getTime (aggregator st) msg\<rparr>)
                        (heap srv)\<rparr>,
                  None)
               else (srv, None)))"

fun server_run ::
  "CONFIG \<Rightarrow> (string \<Rightarrow> int) \<Rightarrow> Server \<Rightarrow> server_event list
     \<Rightarrow> Server \<times> (string \<times> HeatmapColumn) option list" where
  "server_run cfg getTime srv [] = (srv, [])"
| "server_run cfg getTime srv (ev # evs) =
     (case server_step cfg getTime srv ev of
        (srv', out) \<Rightarrow>
          (case server_run cfg getTime srv' evs of (srv'', outs) \<Rightarrow> (srv'', out # outs)))"

section \<open>Well-formed registries\<close>

text \<open>
  What holds of the registry in every state the server reaches: no session id is a key
  twice (it is a \<^verbatim>\<open>Map\<close>), and a registered cell exists and is the stream created for that
  session (its callback broadcasts to that session). \<open>heap_ext\<close> says how the heap grows:
  cells are added and changed, never removed, and a cell keeps its session. \<open>pc_ok\<close> says
  that the cell a waiting handler will register is the one it created for its session.
\<close>

definition heap_ext :: "ActiveStream list \<Rightarrow> ActiveStream list \<Rightarrow> bool" where
  "heap_ext h h' =
     (length h \<le> length h' \<and>
      (\<forall>j < length h. listener_session (h' ! j) = listener_session (h ! j)))"

definition reg_ok :: "ActiveStream list \<Rightarrow> (string \<times> nat) list \<Rightarrow> bool" where
  "reg_ok h reg =
     (distinct (map fst reg) \<and>
      (\<forall>(sessionId, i) \<in> set reg. i < length h \<and> listener_session (h ! i) = sessionId))"

definition pc_ok :: "ActiveStream list \<Rightarrow> StartRequest \<Rightarrow> pc \<Rightarrow> bool" where
  "pc_ok h rq p =
     (\<forall>new. p = AwaitConnectionStart new \<or> p = AwaitSubscribeDepth new \<or>
            p = AwaitSubscribeTrades new
        \<longrightarrow> new < length h \<and> rq_sessionId rq = Some (listener_session (h ! new)))"

definition server_ok :: "Server \<Rightarrow> bool" where
  "server_ok srv =
     (reg_ok (heap srv) (streams srv) \<and>
      (\<forall>(rq, p) \<in> set (requests srv). pc_ok (heap srv) rq p))"

section \<open>Example inputs\<close>

text \<open>
  Concrete inputs for the worked examples: the default configuration, a stream for a
  contract with tick size 1/4, and feed messages with the fields that matter.
\<close>

definition cfg_default :: CONFIG where
  "cfg_default = \<lparr>BUCKET_MS = 100, PRICE_WINDOW_TICKS = 200\<rparr>"

definition es_new :: MarketAggregator where
  "es_new = MarketAggregator_new ''ES'' (1 / 4)"

definition depthMsg :: "int \<Rightarrow> rat \<Rightarrow> int \<Rightarrow> DepthMessage" where
  "depthMsg ty p v =
     \<lparr>depth_contractId = ''ES'', domType = ty, depth_price = p, depth_volume = v,
      depth_timestamp = ''2024-01-01T00:00:00Z''\<rparr>"

definition tradeMsg :: "rat \<Rightarrow> int \<Rightarrow> int \<Rightarrow> TradeMessage" where
  "tradeMsg p q a =
     \<lparr>trade_contractId = ''ES'', trade_price = p, quantity = q, aggressorSide = a,
      trade_timestamp = ''2024-01-01T00:00:00Z''\<rparr>"

definition epoch :: "string \<Rightarrow> int" where
  "epoch d = 1704067200000"

definition example_events :: "event list" where
  "example_events =
     [Start, Trade (tradeMsg 0 1 0), Timer 100, Trade (tradeMsg (25 / 2) 2 1), Timer 200,
      Depth (depthMsg 2 25 5), Trade (tradeMsg 13 4 7), Timer 300]"

text \<open>
  A server after a login of session \<open>S\<close>, and a \<^verbatim>\<open>/stream/start\<close> request of that session.
\<close>

definition server_logged_in :: Server where
  "server_logged_in =
     \<lparr>sessionStore = [(''S'', \<lparr>userName = ''trader'', accessToken = ''jwt1'',
                               tokenExpiresAt = 1704067200000\<rparr>)],
      streams = [], heap = [], requests = []\<rparr>"

definition start_ES :: StartRequest where
  "start_ES = \<lparr>rq_sessionId = Some ''S'', rq_contractId = ''ES'', rq_tickSize = 1 / 4\<rparr>"

text \<open>
  One request served to its end, with a bid fed to the new stream; two requests of the
  same session one after the other; and two requests of the same session, the second
  arriving while the first waits for its connection.
\<close>

definition one_start :: "server_event list" where
  "one_start =
     [StartStream start_ES, Settle 0 True, Settle 0 True, Settle 0 True,
      GatewayDepth 0 (depthMsg 2 25 5)]"

definition sequential_starts :: "server_event list" where
  "sequential_starts =
     [StartStream start_ES, Settle 0 True, Settle 0 True, Settle 0 True,
      GatewayDepth 0 (depthMsg 2 25 5),
      StartStream start_ES, Settle 1 True, Settle 1 True, Settle 1 True, Settle 1 True,
      GatewayDepth 1 (depthMsg 2 (51 / 2) 7),
      TimerFires 0 1000, TimerFires 1 1000]"

definition overlapping_starts :: "server_event list" where
  "overlapping_starts =
     [StartStream start_ES, StartStream start_ES,
      Settle 0 True, Settle 0 True, Settle 0 True,
      Settle 1 True, Settle 1 True, Settle 1 True,
      GatewayDepth 0 (depthMsg 2 25 5), GatewayDepth 1 (depthMsg 2 (51 / 2) 7),
      TimerFires 0 1000, TimerFires 1 1000]"

text \<open>
  Two sessions, each with a stream of its own, and a refresh cycle in which the gateway
  hands session \<open>S\<close> a new token and rejects the request for session \<open>T\<close>.
\<close>

definition server_two_logins :: Server where
  "server_two_logins =
     \<lparr>sessionStore =
        [(''S'', \<lparr>userName = ''trader'', accessToken = ''jwt1'',
                  tokenExpiresAt = 1704067200000\<rparr>),
         (''T'', \<lparr>userName = ''other'', accessToken = ''jwt9'',
                  tokenExpiresAt = 1704067200000\<rparr>)],
      streams = [], heap = [], requests = []\<rparr>"

definition start_NQ :: StartRequest where
  "start_NQ = \<lparr>rq_sessionId = Some ''T'', rq_contractId = ''NQ'', rq_tickSize = 1 / 4\<rparr>"

definition two_sessions_started :: "server_event list" where
  "two_sessions_started =
     [StartStream start_ES, Settle 0 True, Settle 0 True, Settle 0 True,
      StartStream start_NQ, Settle 1 True, Settle 1 True, Settle 1 True,
      GatewayDepth 0 (depthMsg 2 25 5)]"

definition example_answers :: "string \<Rightarrow> axios_result \<times> int" where
  "example_answers sessionId =
     (if sessionId = ''S''
      then (Resolved \<lparr>newToken = Some ''jwt2'', success = True\<rparr>, 1704070200000)
      else (Rejected, 1704070200000))"

section \<open>Helper facts\<close>

lemma bestBid_Nil: "bestBid [] = None"
  by (simp add: bestBid_def)

lemma bestAsk_Nil: "bestAsk [] = None"
  by (simp add: bestAsk_def)

lemma Math_round_half: "Math_round (of_int n / 2) = (n + 1) div 2"
proof -
  have eq: "of_int n / 2 + 1 / 2 = (of_int (n + 1) :: rat) / of_int 2" by simp
  have "\<lfloor>(of_int (n + 1) :: rat) / of_int 2\<rfloor> = (n + 1) div 2" by (rule floor_divide_of_int_eq)
  then show ?thesis unfolding Math_round_def eq .
qed

lemma bestBid_fold:
  "fold (\<lambda>t best. case best of None \<Rightarrow> Some t | Some b \<Rightarrow> if t > b then Some t else Some b) ks (Some (x::int))
   = Some (Max (insert x (set ks)))"
proof (induction ks arbitrary: x)
  case Nil then show ?case by simp
next
  case (Cons k ks)
  have step: "(case Some x of None \<Rightarrow> Some k | Some b \<Rightarrow> if k > b then Some k else Some b) = Some (max x k)"
    by (simp add: max_def)
  have "Max (insert (max x k) (set ks)) = Max (insert x (insert k (set ks)))"
    by (cases "set ks = {}") (simp_all add: max.assoc max.commute max.left_commute)
  then show ?case using Cons.IH[of "max x k"] by (simp only: fold_simps step list.set)
qed

lemma bestBid_Max: "m \<noteq> [] \<Longrightarrow> bestBid m = Some (Max (fst ` set m))"
  by (cases m) (simp_all add: bestBid_def bestBid_fold)

lemma bestAsk_fold:
  "fold (\<lambda>t best. case best of None \<Rightarrow> Some t | Some a \<Rightarrow> if t < a then Some t else Some a) ks (Some (x::int))
   = Some (Min (insert x (set ks)))"
proof (induction ks arbitrary: x)
  case Nil then show ?case by simp
next
  case (Cons k ks)
  have step: "(case Some x of None \<Rightarrow> Some k | Some a \<Rightarrow> if k < a then Some k else Some a) = Some (min x k)"
    by (simp add: min_def)
  have "Min (insert (min x k) (set ks)) = Min (insert x (insert k (set ks)))"
    by (cases "set ks = {}") (simp_all add: min.assoc min.commute min.left_commute)
  then show ?case using Cons.IH[of "min x k"] by (simp only: fold_simps step list.set)
qed

lemma bestAsk_Min: "m \<noteq> [] \<Longrightarrow> bestAsk m = Some (Min (fst ` set m))"
  by (cases m) (simp_all add: bestAsk_def bestAsk_fold)

lemma bestBid_None_iff: "bestBid m = None \<longleftrightarrow> m = []"
  by (cases "m = []") (simp_all add: bestBid_Nil bestBid_Max)

lemma bestAsk_None_iff: "bestAsk m = None \<longleftrightarrow> m = []"
  by (cases "m = []") (simp_all add: bestAsk_Nil bestAsk_Min)

lemma bestBid_in_keys: "bestBid m = Some b \<Longrightarrow> b \<in> fst ` set m"
proof -
  assume h: "bestBid m = Some b"
  then have ne: "m \<noteq> []" by (auto simp: bestBid_Nil)
  then have "fst ` set m \<noteq> {}" by simp
  then have "Max (fst ` set m) \<in> fst ` set m" by (intro Max_in) simp_all
  then show ?thesis using h bestBid_Max[OF ne] by simp
qed

lemma bestAsk_in_keys: "bestAsk m = Some a \<Longrightarrow> a \<in> fst ` set m"
proof -
  assume h: "bestAsk m = Some a"
  then have ne: "m \<noteq> []" by (auto simp: bestAsk_Nil)
  then have "fst ` set m \<noteq> {}" by simp
  then have "Min (fst ` set m) \<in> fst ` set m" by (intro Min_in) simp_all
  then show ?thesis using h bestAsk_Min[OF ne] by simp
qed

lemma bucket_emits:
  "resolveMidTick s \<noteq> 0 \<Longrightarrow>
   bucket cfg now s =
     (s\<lparr>lastMidTick := resolveMidTick s, currentBucketTrades := []\<rparr>,
      Some \<lparr>col_t = now, midTick = resolveMidTick s,
            col_bids = window (bids s) (resolveMidTick s - int (PRICE_WINDOW_TICKS cfg div 2)) (PRICE_WINDOW_TICKS cfg),
            col_asks = window (asks s) (resolveMidTick s - int (PRICE_WINDOW_TICKS cfg div 2)) (PRICE_WINDOW_TICKS cfg),
            trades = currentBucketTrades s\<rparr>)"
  by (simp add: bucket_def Let_def)

lemma bucket_suppressed: "resolveMidTick s = 0 \<Longrightarrow> bucket cfg now s = (s, None)"
  by (simp add: bucket_def)

lemma bucket_Some_midTick:
  "bucket cfg now s = (s', Some col) \<Longrightarrow> midTick col = resolveMidTick s \<and> resolveMidTick s \<noteq> 0"
  by (auto simp: bucket_def Let_def split: if_splits)

lemma resolve_both:
  "bestBid (bids s) = Some b \<Longrightarrow> bestAsk (asks s) = Some a \<Longrightarrow> Math_round (of_int (b + a) / 2) \<noteq> 0
   \<Longrightarrow> resolveMidTick s = Math_round (of_int (b + a) / 2)"
  by (simp add: resolveMidTick_def Let_def)

lemma resolve_trade:
  "bestBid (bids s) = None \<or> bestAsk (asks s) = None \<Longrightarrow> currentBucketTrades s \<noteq> [] \<Longrightarrow>
   priceTick (last (currentBucketTrades s)) \<noteq> 0 \<Longrightarrow>
   resolveMidTick s = priceTick (last (currentBucketTrades s))"
  by (auto simp add: resolveMidTick_def Let_def split: option.splits)

lemma get_or_0_eq: "get_or_0 m t = (case map_of m t of None \<Rightarrow> 0 | Some v \<Rightarrow> v)"
  by (simp add: get_or_0_def split: option.splits)

lemma length_window: "length (window m st n) = n"
  by (simp add: window_def)

lemma window_nth: "i < n \<Longrightarrow> window m st n ! i = get_or_0 m (st + int i)"
  by (simp add: window_def)

lemma handleDepth_reset:
  "domType msg = 6 \<Longrightarrow> handleDepth s msg = s\<lparr>bids := [], asks := []\<rparr>"
  by (simp add: handleDepth_def)

lemma handleDepth_bid:
  assumes "domType msg = 2 \<or> domType msg = 4 \<or> domType msg = 9"
  shows "handleDepth s msg =
           s\<lparr>bids := (if depth_volume msg = 0
                       then AList.delete (Math_round (depth_price msg / tickSize s)) (bids s)
                       else AList.update (Math_round (depth_price msg / tickSize s))
                              (depth_volume msg) (bids s))\<rparr>"
  using assms by (auto simp: handleDepth_def Let_def)

lemma handleDepth_ask:
  assumes "domType msg = 1 \<or> domType msg = 3 \<or> domType msg = 10"
  shows "handleDepth s msg =
           s\<lparr>asks := (if depth_volume msg = 0
                       then AList.delete (Math_round (depth_price msg / tickSize s)) (asks s)
                       else AList.update (Math_round (depth_price msg / tickSize s))
                              (depth_volume msg) (asks s))\<rparr>"
  using assms by (auto simp: handleDepth_def Let_def)

lemma handleDepth_other:
  assumes "domType msg \<notin> {1, 2, 3, 4, 6, 9, 10}"
  shows "handleDepth s msg = s"
  using assms by (simp add: handleDepth_def)

lemma length_delete_present:
  "distinct (map fst al) \<Longrightarrow> k \<in> fst ` set al \<Longrightarrow> length (AList.delete k al) + 1 = length al"
proof (induction al)
  case Nil
  then show ?case by simp
next
  case (Cons p al)
  show ?case
  proof (cases "fst p = k")
    case True
    then have "k \<notin> fst ` set al" using Cons.prems(1) by auto
    then have "AList.delete k al = al" by simp
    then show ?thesis using True by (cases p) (simp add: AList.delete_eq)
  next
    case False
    then have "k \<in> fst ` set al" using Cons.prems(2) by auto
    then have "length (AList.delete k al) + 1 = length al"
      using Cons.IH Cons.prems(1) by simp
    then show ?thesis using False by (cases p) (auto simp: AList.delete_eq)
  qed
qed

lemma set_update_subset: "set (AList.update k v al) \<subseteq> insert (k, v) (set al)"
  by (induction al) auto

lemma set_delete_subset: "set (AList.delete k al) \<subseteq> set al"
  by (auto simp: AList.delete_eq)

lemma handleDepth_entries:
  assumes "(t, v) \<in> set (bids (handleDepth s msg)) \<union> set (asks (handleDepth s msg))"
  shows "(t, v) \<in> set (bids s) \<union> set (asks s) \<or> (v = depth_volume msg \<and> v \<noteq> 0)"
proof -
  consider (reset) "domType msg = 6"
    | (ask) "domType msg = 1 \<or> domType msg = 3 \<or> domType msg = 10"
    | (bid) "domType msg = 2 \<or> domType msg = 4 \<or> domType msg = 9"
    | (other) "domType msg \<notin> {1, 2, 3, 4, 6, 9, 10}"
    by auto
  then show ?thesis
  proof cases
    case reset
    then show ?thesis using assms by (simp add: handleDepth_reset)
  next
    case ask
    show ?thesis
      using assms
        set_update_subset[of "Math_round (depth_price msg / tickSize s)" "depth_volume msg" "asks s"]
        set_delete_subset[of "Math_round (depth_price msg / tickSize s)" "asks s"]
      unfolding handleDepth_ask[OF ask] by (auto split: if_splits)
  next
    case bid
    show ?thesis
      using assms
        set_update_subset[of "Math_round (depth_price msg / tickSize s)" "depth_volume msg" "bids s"]
        set_delete_subset[of "Math_round (depth_price msg / tickSize s)" "bids s"]
      unfolding handleDepth_bid[OF bid] by (auto split: if_splits)
  next
    case other
    then show ?thesis using assms by (simp add: handleDepth_other)
  qed
qed

lemma handleDepth_foldl_entries:
  assumes "bids s0 = []" and "asks s0 = []"
  shows "(t, v) \<in> set (bids (foldl handleDepth s0 msgs)) \<union> set (asks (foldl handleDepth s0 msgs))
         \<Longrightarrow> v \<noteq> 0 \<and> v \<in> depth_volume ` set msgs"
proof (induction msgs arbitrary: t v rule: rev_induct)
  case Nil
  then show ?case using assms by simp
next
  case (snoc m msgs)
  from snoc.prems have
    "(t, v) \<in> set (bids (foldl handleDepth s0 msgs)) \<union> set (asks (foldl handleDepth s0 msgs))
     \<or> (v = depth_volume m \<and> v \<noteq> 0)"
    using handleDepth_entries[of t v "foldl handleDepth s0 msgs" m] by simp
  then show ?case using snoc.IH by auto
qed

lemma step_effect:
  assumes "step cfg gt s e = (s', out)"
  shows "tickSize s' = tickSize s \<and>
         currentBucketTrades s' =
           (case out of
              Some col \<Rightarrow> []
            | None \<Rightarrow> (case e of Trade msg \<Rightarrow> currentBucketTrades s @ [mkTrade gt (tickSize s) msg]
                       | _ \<Rightarrow> currentBucketTrades s)) \<and>
         (\<forall>col. out = Some col \<longrightarrow> trades col = currentBucketTrades s)"
proof (cases e)
  case Start
  then show ?thesis using assms by (auto simp: step_def start_def)
next
  case Stop
  then show ?thesis using assms by (auto simp: step_def stop_def)
next
  case (Depth msg)
  then show ?thesis using assms by (auto simp: step_def handleDepth_def Let_def)
next
  case (Trade msg)
  then show ?thesis using assms by (auto simp: step_def handleTrade_def)
next
  case (Timer now)
  then show ?thesis using assms
    by (auto simp: step_def bucket_def Let_def split: if_splits)
qed

lemma run_buffer:
  "run cfg gt s0 evs = (s, outs) \<Longrightarrow>
   tickSize s = tickSize s0 \<and> length outs = length evs \<and>
   currentBucketTrades s =
     trades_since_last_emit gt (tickSize s0) (currentBucketTrades s0) (zip evs outs)"
proof (induction evs arbitrary: s0 s outs)
  case Nil
  then show ?case by simp
next
  case (Cons e es)
  obtain s1 out where st: "step cfg gt s0 e = (s1, out)" by (cases "step cfg gt s0 e")
  obtain s2 os where rn: "run cfg gt s1 es = (s2, os)" by (cases "run cfg gt s1 es")
  from Cons.prems st rn have eq: "s = s2" "outs = out # os" by simp_all
  note eff = step_effect[OF st]
  note ih = Cons.IH[OF rn]
  show ?case using eff ih by (simp add: eq)
qed

lemma run_length: "run cfg gt s0 evs = (s, outs) \<Longrightarrow> length outs = length evs"
  using run_buffer by blast

lemma run_snoc:
  "run cfg gt s0 (xs @ [e]) =
     (case run cfg gt s0 xs of
        (s1, o1) \<Rightarrow> (case step cfg gt s1 e of (s2, out) \<Rightarrow> (s2, o1 @ [out])))"
  by (induction xs arbitrary: s0) (auto split: prod.splits)

lemma run_take:
  "run cfg gt s0 evs = (s, outs) \<Longrightarrow> snd (run cfg gt s0 (take k evs)) = take k outs"
proof (induction evs arbitrary: s0 s outs k)
  case Nil
  then show ?case by simp
next
  case (Cons e es)
  obtain s1 out where st: "step cfg gt s0 e = (s1, out)" by (cases "step cfg gt s0 e")
  obtain s2 os where rn: "run cfg gt s1 es = (s2, os)" by (cases "run cfg gt s1 es")
  from Cons.prems st rn have eq: "outs = out # os" by simp
  show ?case
  proof (cases k)
    case 0
    then show ?thesis by simp
  next
    case (Suc j)
    have "snd (run cfg gt s1 (take j es)) = take j os" using Cons.IH[OF rn] .
    then show ?thesis using st by (auto simp add: Suc eq split: prod.splits)
  qed
qed

lemma run_emitted:
  assumes "run cfg gt s0 evs = (s, outs)" and "k < length evs" and "outs ! k = Some col"
  shows "trades col =
           trades_since_last_emit gt (tickSize s0) (currentBucketTrades s0)
             (zip (take k evs) (take k outs)) \<and>
         currentBucketTrades (fst (run cfg gt s0 (take (Suc k) evs))) = []"
proof -
  obtain sk ok where rk: "run cfg gt s0 (take k evs) = (sk, ok)"
    by (cases "run cfg gt s0 (take k evs)")
  have ok: "ok = take k outs" using run_take[OF assms(1), of k] rk by simp
  have len: "length outs = length evs" using run_length[OF assms(1)] .
  obtain s' out where st: "step cfg gt sk (evs ! k) = (s', out)"
    by (cases "step cfg gt sk (evs ! k)")
  have tk: "take (Suc k) evs = take k evs @ [evs ! k]"
    using assms(2) by (simp add: take_Suc_conv_app_nth)
  have rs: "run cfg gt s0 (take (Suc k) evs) = (s', ok @ [out])"
    unfolding tk run_snoc by (simp add: rk st)
  have "snd (run cfg gt s0 (take (Suc k) evs)) = take (Suc k) outs"
    using run_take[OF assms(1)] .
  then have "ok @ [out] = take k outs @ [outs ! k]"
    using rs assms(2) len by (simp add: take_Suc_conv_app_nth)
  then have out: "out = Some col" using ok assms(3) by simp
  have buf: "currentBucketTrades sk =
     trades_since_last_emit gt (tickSize s0) (currentBucketTrades s0) (zip (take k evs) ok)"
    using run_buffer[OF rk] by simp
  show ?thesis using step_effect[OF st] out buf rs ok by simp
qed

lemma length_modify: "length (modify i f h) = length h"
  by (simp add: modify_def)

lemma nth_modify:
  "j < length h \<Longrightarrow> modify i f h ! j = (if j = i then f (h ! j) else h ! j)"
  by (simp add: modify_def)

lemma refresh_one_frame:
  "streams (refresh_one answer sid i srv) = streams srv \<and>
   requests (refresh_one answer sid i srv) = requests srv \<and>
   length (heap (refresh_one answer sid i srv)) = length (heap srv) \<and>
   (\<forall>j < length (heap srv).
      aggregator (heap (refresh_one answer sid i srv) ! j) = aggregator (heap srv ! j) \<and>
      isConnected (socket (heap (refresh_one answer sid i srv) ! j))
        = isConnected (socket (heap srv ! j)) \<and>
      stream_contractId (heap (refresh_one answer sid i srv) ! j)
        = stream_contractId (heap srv ! j) \<and>
      listener_session (heap (refresh_one answer sid i srv) ! j)
        = listener_session (heap srv ! j) \<and>
      (j \<noteq> i \<longrightarrow> heap (refresh_one answer sid i srv) ! j = heap srv ! j))"
  by (auto simp: refresh_one_def length_modify nth_modify updateToken_def
           split: prod.splits option.splits)

lemma refresh_loop_frame:
  "streams (refresh_loop answers entries srv) = streams srv \<and>
   requests (refresh_loop answers entries srv) = requests srv \<and>
   length (heap (refresh_loop answers entries srv)) = length (heap srv) \<and>
   (\<forall>j < length (heap srv).
      aggregator (heap (refresh_loop answers entries srv) ! j) = aggregator (heap srv ! j) \<and>
      isConnected (socket (heap (refresh_loop answers entries srv) ! j))
        = isConnected (socket (heap srv ! j)) \<and>
      stream_contractId (heap (refresh_loop answers entries srv) ! j)
        = stream_contractId (heap srv ! j) \<and>
      listener_session (heap (refresh_loop answers entries srv) ! j)
        = listener_session (heap srv ! j))"
proof (induction entries arbitrary: srv)
  case Nil
  then show ?case by simp
next
  case (Cons e entries)
  obtain sid i where e: "e = (sid, i)" by (cases e)
  note one = refresh_one_frame[of "answers sid" sid i srv]
  note ih = Cons.IH[of "refresh_one (answers sid) sid i srv"]
  show ?case unfolding e refresh_loop.simps using one ih by simp
qed

lemma validateAndRefresh_cong:
  "map_of store1 sid = map_of store2 sid \<Longrightarrow>
   snd (validateAndRefresh res now store1 sid) = snd (validateAndRefresh res now store2 sid)"
  by (auto simp: validateAndRefresh_def split: option.splits axios_result.splits)

lemma validateAndRefresh_store_other:
  "sid' \<noteq> sid \<Longrightarrow>
   map_of (fst (validateAndRefresh res now store sid')) sid = map_of store sid"
  by (auto simp: validateAndRefresh_def AList.update_conv'
           split: option.splits axios_result.splits)

lemma refresh_one_store:
  "sessionStore (refresh_one answer sid' j srv)
     = fst (validateAndRefresh (fst answer) (snd answer) (sessionStore srv) sid')"
  by (auto simp: refresh_one_def split: prod.splits option.splits)

lemma refresh_one_cell:
  "i < length (heap srv) \<Longrightarrow>
   heap (refresh_one answer sid i srv) ! i =
     (case snd (validateAndRefresh (fst answer) (snd answer) (sessionStore srv) sid) of
        Some t \<Rightarrow> if t \<noteq> [] then (heap srv ! i)\<lparr>socket := updateToken (socket (heap srv ! i)) t\<rparr>
                  else heap srv ! i
      | None \<Rightarrow> heap srv ! i)"
  by (auto simp: refresh_one_def nth_modify split: prod.splits option.splits)

lemma refresh_one_other_cell:
  "j \<noteq> i \<Longrightarrow> i < length (heap srv) \<Longrightarrow> heap (refresh_one answer sid j srv) ! i = heap srv ! i"
  using refresh_one_frame[of answer sid j srv] by simp

lemma refresh_one_length: "length (heap (refresh_one answer sid j srv)) = length (heap srv)"
  using refresh_one_frame[of answer sid j srv] by simp

lemma refresh_loop_other_cell:
  "i \<notin> snd ` set entries \<Longrightarrow> i < length (heap srv) \<Longrightarrow>
   heap (refresh_loop answers entries srv) ! i = heap srv ! i"
proof (induction entries arbitrary: srv)
  case Nil
  then show ?case by simp
next
  case (Cons e entries)
  obtain sid j where e: "e = (sid, j)" by (cases e)
  have ji: "j \<noteq> i" and rest: "i \<notin> snd ` set entries" using Cons.prems(1) e by auto
  have len: "i < length (heap (refresh_one (answers sid) sid j srv))"
    using Cons.prems(2) by (simp add: refresh_one_length)
  show ?case
    unfolding e refresh_loop.simps
    using Cons.IH[OF rest len] refresh_one_other_cell[OF ji Cons.prems(2)] by simp
qed

lemma refresh_loop_cell:
  assumes "distinct (map fst entries)" and "distinct (map snd entries)"
    and "(sid, i) \<in> set entries" and "i < length (heap srv)"
  shows "heap (refresh_loop answers entries srv) ! i
           = heap (refresh_one (answers sid) sid i srv) ! i"
  using assms
proof (induction entries arbitrary: srv)
  case Nil
  then show ?case by simp
next
  case (Cons e entries)
  obtain sid' j where e: "e = (sid', j)" by (cases e)
  let ?srv1 = "refresh_one (answers sid') sid' j srv"
  have len1: "i < length (heap ?srv1)" using Cons.prems(4) by (simp add: refresh_one_length)
  show ?case
  proof (cases "(sid', j) = (sid, i)")
    case True
    have "i \<notin> snd ` set entries" using Cons.prems(2) e True by auto
    then have "heap (refresh_loop answers entries ?srv1) ! i = heap ?srv1 ! i"
      using len1 by (rule refresh_loop_other_cell)
    then show ?thesis using True by (simp add: e)
  next
    case False
    then have mem: "(sid, i) \<in> set entries" using Cons.prems(3) e by auto
    have ns: "sid' \<noteq> sid"
      using Cons.prems(1) mem e by (auto simp: image_iff)
    have nj: "j \<noteq> i"
      using Cons.prems(2) mem e by (auto simp: image_iff)
    have d1: "distinct (map fst entries)" and d2: "distinct (map snd entries)"
      using Cons.prems(1) Cons.prems(2) by simp_all
    have ih: "heap (refresh_loop answers entries ?srv1) ! i
                = heap (refresh_one (answers sid) sid i ?srv1) ! i"
      using Cons.IH[OF d1 d2 mem len1] .
    have cell: "heap ?srv1 ! i = heap srv ! i"
      using refresh_one_other_cell[OF nj Cons.prems(4)] .
    have store: "map_of (sessionStore ?srv1) sid = map_of (sessionStore srv) sid"
      by (simp add: refresh_one_store validateAndRefresh_store_other[OF ns])
    have "heap (refresh_one (answers sid) sid i ?srv1) ! i
            = heap (refresh_one (answers sid) sid i srv) ! i"
      unfolding refresh_one_cell[OF len1] refresh_one_cell[OF Cons.prems(4)]
        validateAndRefresh_cong[OF store] cell ..
    then show ?thesis using ih by (simp add: e)
  qed
qed

lemma heap_ext_refl: "heap_ext h h"
  by (simp add: heap_ext_def)

lemma heap_ext_trans: "heap_ext h1 h2 \<Longrightarrow> heap_ext h2 h3 \<Longrightarrow> heap_ext h1 h3"
  by (auto simp: heap_ext_def)

lemma heap_ext_modify:
  "(\<And>st. listener_session (f st) = listener_session st) \<Longrightarrow> heap_ext h (modify i f h)"
  by (simp add: heap_ext_def length_modify nth_modify)

lemma heap_ext_append: "heap_ext h (h @ [c])"
  by (simp add: heap_ext_def nth_append)

lemma reg_ok_ext: "heap_ext h h' \<Longrightarrow> reg_ok h reg \<Longrightarrow> reg_ok h' reg"
  by (fastforce simp: heap_ext_def reg_ok_def)

lemma pc_ok_ext: "heap_ext h h' \<Longrightarrow> pc_ok h rq p \<Longrightarrow> pc_ok h' rq p"
  by (fastforce simp: heap_ext_def pc_ok_def)

lemma reg_ok_delete: "reg_ok h reg \<Longrightarrow> reg_ok h (AList.delete k reg)"
  using set_delete_subset[of k reg]
  by (auto simp: reg_ok_def AList.distinct_delete)

lemma reg_ok_update:
  "reg_ok h reg \<Longrightarrow> i < length h \<Longrightarrow> listener_session (h ! i) = k \<Longrightarrow>
   reg_ok h (AList.update k i reg)"
  using set_update_subset[of k i reg]
  by (auto simp: reg_ok_def AList.distinct_update)

lemma reg_ok_distinct_snd: "reg_ok h reg \<Longrightarrow> distinct (map snd reg)"
proof -
  assume ok: "reg_ok h reg"
  have "inj_on snd (set reg)"
  proof (rule inj_onI)
    fix x y assume x: "x \<in> set reg" and y: "y \<in> set reg" and eq: "snd x = snd y"
    have "fst x = listener_session (h ! snd x)" using ok x by (auto simp: reg_ok_def)
    moreover have "fst y = listener_session (h ! snd y)" using ok y by (auto simp: reg_ok_def)
    ultimately show "x = y" using eq by (simp add: prod_eq_iff)
  qed
  moreover have "distinct reg" using ok by (auto simp: reg_ok_def distinct_map)
  ultimately show ?thesis by (simp add: distinct_map)
qed

lemma create_stream_inv:
  assumes "reg_ok (heap srv) (streams srv)"
    and "create_stream sid session rq srv = (srv', p)" and "rq_sessionId rq = Some sid"
  shows "heap_ext (heap srv) (heap srv') \<and> reg_ok (heap srv') (streams srv') \<and>
         pc_ok (heap srv') rq p \<and> requests srv' = requests srv"
proof -
  have h: "heap_ext (heap srv) (heap srv')" and s: "streams srv' = streams srv"
    and r: "requests srv' = requests srv"
    using assms(2) by (auto simp: create_stream_def heap_ext_append)
  have "pc_ok (heap srv') rq p"
    using assms(2) assms(3) by (auto simp: create_stream_def pc_ok_def)
  then show ?thesis using h s r reg_ok_ext[OF h assms(1)] by simp
qed

lemma discard_old_inv:
  assumes "reg_ok (heap srv) (streams srv)"
  shows "heap_ext (heap srv) (heap (discard_old sid old srv)) \<and>
         reg_ok (heap (discard_old sid old srv)) (streams (discard_old sid old srv)) \<and>
         requests (discard_old sid old srv) = requests srv"
proof -
  have h: "heap_ext (heap srv) (heap (discard_old sid old srv))"
    by (simp add: discard_old_def heap_ext_modify)
  have "reg_ok (heap (discard_old sid old srv)) (streams srv)"
    using reg_ok_ext[OF h assms] .
  then have "reg_ok (heap (discard_old sid old srv)) (AList.delete sid (streams srv))"
    by (rule reg_ok_delete)
  then show ?thesis using h by (simp add: discard_old_def)
qed

lemma begin_start_inv:
  assumes "reg_ok (heap srv) (streams srv)" and "begin_start srv rq = (srv', p)"
  shows "heap_ext (heap srv) (heap srv') \<and> reg_ok (heap srv') (streams srv') \<and>
         pc_ok (heap srv') rq p \<and> requests srv' = requests srv"
proof -
  have same: "heap_ext (heap srv) (heap srv') \<and> reg_ok (heap srv') (streams srv') \<and>
         pc_ok (heap srv') rq p \<and> requests srv' = requests srv"
    if "srv' = srv" and "p = Responded n \<or> p = Unhandled \<or> (\<exists>old. p = AwaitSocketStop old)" for n
    using that assms(1) by (auto simp: heap_ext_refl pc_ok_def)
  show ?thesis
  proof (cases "rq_sessionId rq")
    case None
    then show ?thesis using assms(2) same[of 401] by (simp add: begin_start_def)
  next
    case (Some sid)
    show ?thesis
    proof (cases "map_of (sessionStore srv) sid")
      case None
      then show ?thesis using assms(2) Some same[of 401] by (simp add: begin_start_def)
    next
      case sess: (Some session)
      show ?thesis
      proof (cases "rq_contractId rq = [] \<or> rq_tickSize rq = 0")
        case True
        then show ?thesis using assms(2) Some sess same[of 400] by (auto simp: begin_start_def)
      next
        case False
        show ?thesis
        proof (cases "map_of (streams srv) sid")
          case None
          then have "create_stream sid session rq srv = (srv', p)"
            using assms(2) Some sess False by (simp add: begin_start_def)
          then show ?thesis using create_stream_inv[OF assms(1) _ Some] by blast
        next
          case old: (Some old)
          show ?thesis
          proof (cases "deref (heap srv) old")
            case None
            then show ?thesis
              using assms(2) Some sess False old same[of 0] by (simp add: begin_start_def)
          next
            case st: (Some st)
            show ?thesis
            proof (cases "isConnected (socket st)")
              case True
              then show ?thesis
                using assms(2) Some sess False old st same[of 0] by (auto simp: begin_start_def)
            next
              case nc: False
              let ?d = "discard_old sid old srv"
              have c: "create_stream sid session rq ?d = (srv', p)"
                using assms(2) Some sess False old st nc by (simp add: begin_start_def)
              note d = discard_old_inv[OF assms(1), of sid old]
              have cr: "heap_ext (heap ?d) (heap srv') \<and> reg_ok (heap srv') (streams srv') \<and>
                  pc_ok (heap srv') rq p \<and> requests srv' = requests ?d"
                using create_stream_inv[OF _ c Some] d by blast
              show ?thesis using cr d heap_ext_trans by auto
            qed
          qed
        qed
      qed
    qed
  qed
qed

lemma resume_inv:
  assumes "reg_ok (heap srv) (streams srv)" and "pc_ok (heap srv) rq p"
    and "resume srv rq p ok = (srv', p')"
  shows "heap_ext (heap srv) (heap srv') \<and> reg_ok (heap srv') (streams srv') \<and>
         pc_ok (heap srv') rq p' \<and> requests srv' = requests srv"
proof -
  have same: "heap_ext (heap srv) (heap srv') \<and> reg_ok (heap srv') (streams srv') \<and>
         pc_ok (heap srv') rq p' \<and> requests srv' = requests srv"
    if "srv' = srv \<and> ((\<exists>n. p' = Responded n) \<or> p' = Unhandled)"
    using that assms(1) by (auto simp: heap_ext_refl pc_ok_def)
  show ?thesis
  proof (cases p)
    case (AwaitSocketStop old)
    show ?thesis
    proof (cases "ok \<and> rq_sessionId rq \<noteq> None \<and>
                  map_of (sessionStore srv) (the (rq_sessionId rq)) \<noteq> None")
      case False
      then have "srv' = srv \<and> ((\<exists>n. p' = Responded n) \<or> p' = Unhandled)"
        using assms(3) AwaitSocketStop
        by (auto simp: resume_def split: option.splits if_splits)
      then show ?thesis by (rule same)
    next
      case True
      then obtain sid session where sid: "rq_sessionId rq = Some sid"
        and sess: "map_of (sessionStore srv) sid = Some session" by auto
      let ?s1 = "srv\<lparr>heap := modify old
                   (\<lambda>st. st\<lparr>socket := (socket st)\<lparr>isConnected := False\<rparr>\<rparr>) (heap srv)\<rparr>"
      let ?d = "discard_old sid old ?s1"
      have c: "create_stream sid session rq ?d = (srv', p')"
        using assms(3) AwaitSocketStop True sid sess by (simp add: resume_def)
      have h1: "heap_ext (heap srv) (heap ?s1)" by (simp add: heap_ext_modify)
      have r1: "reg_ok (heap ?s1) (streams ?s1)" using reg_ok_ext[OF h1 assms(1)] by simp
      note d = discard_old_inv[OF r1, of sid old]
      have cr: "heap_ext (heap ?d) (heap srv') \<and> reg_ok (heap srv') (streams srv') \<and>
                pc_ok (heap srv') rq p' \<and> requests srv' = requests ?d"
        using create_stream_inv[OF _ c sid] d by blast
      have "heap_ext (heap srv) (heap srv')"
        using h1 d cr heap_ext_trans by blast
      moreover have "requests srv' = requests srv" using cr d by simp
      ultimately show ?thesis using cr by simp
    qed
  next
    case (AwaitConnectionStart new)
    show ?thesis
    proof (cases ok)
      case False
      then have "srv' = srv \<and> ((\<exists>n. p' = Responded n) \<or> p' = Unhandled)"
        using assms(3) AwaitConnectionStart by (auto simp: resume_def)
      then show ?thesis by (rule same)
    next
      case True
      then have s: "srv' = srv\<lparr>heap := modify new
                   (\<lambda>st. st\<lparr>socket := (socket st)\<lparr>isConnected := True\<rparr>\<rparr>) (heap srv)\<rparr>"
        and p': "p' = AwaitSubscribeDepth new"
        using assms(3) AwaitConnectionStart by (auto simp: resume_def)
      have h: "heap_ext (heap srv) (heap srv')" by (simp add: s heap_ext_modify)
      have "pc_ok (heap srv) rq p'" using assms(2) AwaitConnectionStart p' by (simp add: pc_ok_def)
      then have "pc_ok (heap srv') rq p'" using pc_ok_ext[OF h] by simp
      moreover have "reg_ok (heap srv') (streams srv')"
        using reg_ok_ext[OF h assms(1)] by (simp add: s)
      ultimately show ?thesis using h by (simp add: s)
    qed
  next
    case (AwaitSubscribeDepth new)
    show ?thesis
    proof (cases ok)
      case False
      then have "srv' = srv \<and> ((\<exists>n. p' = Responded n) \<or> p' = Unhandled)"
        using assms(3) AwaitSubscribeDepth by (auto simp: resume_def)
      then show ?thesis by (rule same)
    next
      case True
      then have s: "srv' = srv" and p': "p' = AwaitSubscribeTrades new"
        using assms(3) AwaitSubscribeDepth by (auto simp: resume_def)
      have "pc_ok (heap srv) rq p'" using assms(2) AwaitSubscribeDepth p' by (simp add: pc_ok_def)
      then show ?thesis using assms(1) by (simp add: s heap_ext_refl)
    qed
  next
    case (AwaitSubscribeTrades new)
    show ?thesis
    proof (cases "ok \<and> rq_sessionId rq \<noteq> None")
      case False
      then have "srv' = srv \<and> ((\<exists>n. p' = Responded n) \<or> p' = Unhandled)"
        using assms(3) AwaitSubscribeTrades
        by (auto simp: resume_def split: option.splits if_splits)
      then show ?thesis by (rule same)
    next
      case True
      then obtain sid where sid: "rq_sessionId rq = Some sid" by auto
      have s: "srv' = srv\<lparr>heap := modify new (\<lambda>st. st\<lparr>aggregator := start (aggregator st)\<rparr>)
                                  (heap srv),
                      streams := AList.update sid new (streams srv)\<rparr>"
        and p': "p' = Responded 200"
        using assms(3) AwaitSubscribeTrades True sid by (auto simp: resume_def)
      have n: "new < length (heap srv)" and l: "listener_session (heap srv ! new) = sid"
        using assms(2) AwaitSubscribeTrades sid by (auto simp: pc_ok_def)
      have h: "heap_ext (heap srv) (heap srv')" by (simp add: s heap_ext_modify)
      have n': "new < length (heap srv')" and l': "listener_session (heap srv' ! new) = sid"
        using h n l by (auto simp: heap_ext_def)
      have "reg_ok (heap srv') (streams srv)" using reg_ok_ext[OF h assms(1)] .
      then have "reg_ok (heap srv') (AList.update sid new (streams srv))"
        using n' l' by (rule reg_ok_update)
      then have "reg_ok (heap srv') (streams srv')" by (simp add: s)
      then show ?thesis using h p' by (simp add: s pc_ok_def)
    qed
  next
    case (Responded n)
    then have "srv' = srv \<and> ((\<exists>n. p' = Responded n) \<or> p' = Unhandled)"
      using assms(3) by (auto simp: resume_def)
    then show ?thesis by (rule same)
  next
    case Unhandled
    then have "srv' = srv \<and> ((\<exists>n. p' = Responded n) \<or> p' = Unhandled)"
      using assms(3) by (auto simp: resume_def)
    then show ?thesis by (rule same)
  qed
qed

lemma server_ok_heap:
  assumes "server_ok srv" and "heap_ext (heap srv) h"
  shows "server_ok (srv\<lparr>heap := h\<rparr>)"
  using assms reg_ok_ext[OF assms(2)] pc_ok_ext[OF assms(2)]
  by (auto simp: server_ok_def)

lemma server_step_inv:
  assumes "server_ok srv" and "server_step cfg gt srv ev = (srv', out)"
  shows "server_ok srv'"
proof (cases ev)
  case (StartStream rq)
  obtain s1 p where b: "begin_start srv rq = (s1, p)" by (cases "begin_start srv rq")
  have s': "srv' = s1\<lparr>requests := requests s1 @ [(rq, p)]\<rparr>"
    using assms(2) StartStream b by (simp add: server_step_def)
  have reg: "reg_ok (heap srv) (streams srv)" using assms(1) by (simp add: server_ok_def)
  note inv = begin_start_inv[OF reg b]
  have "pc_ok (heap s1) rq' p'" if "(rq', p') \<in> set (requests srv)" for rq' p'
    using that assms(1) inv pc_ok_ext by (fastforce simp: server_ok_def)
  then show ?thesis using inv by (auto simp: s' server_ok_def)
next
  case (Settle k ok)
  show ?thesis
  proof (cases "k < length (requests srv)")
    case False
    then show ?thesis using assms Settle by (simp add: server_step_def)
  next
    case True
    obtain rq p where kp: "requests srv ! k = (rq, p)" by (cases "requests srv ! k")
    obtain s1 p' where r: "resume srv rq p ok = (s1, p')" by (cases "resume srv rq p ok")
    have s': "srv' = s1\<lparr>requests := (requests s1)[k := (rq, p')]\<rparr>"
      using assms(2) Settle True kp r by (simp add: server_step_def)
    have reg: "reg_ok (heap srv) (streams srv)" using assms(1) by (simp add: server_ok_def)
    have mem: "(rq, p) \<in> set (requests srv)" using True kp by (metis nth_mem)
    then have pk: "pc_ok (heap srv) rq p" using assms(1) by (auto simp: server_ok_def)
    note inv = resume_inv[OF reg pk r]
    have old: "pc_ok (heap s1) rq' q" if "(rq', q) \<in> set (requests srv)" for rq' q
      using that assms(1) inv pc_ok_ext by (fastforce simp: server_ok_def)
    have "set ((requests s1)[k := (rq, p')]) \<subseteq> insert (rq, p') (set (requests srv))"
      using inv set_update_subset_insert[of "requests s1" k "(rq, p')"] by simp
    then have "pc_ok (heap s1) rq' q" if "(rq', q) \<in> set ((requests s1)[k := (rq, p')])" for rq' q
      using that old inv by auto
    then show ?thesis using inv by (auto simp: s' server_ok_def)
  qed
next
  case (TimerFires i now)
  have "\<exists>f. (\<forall>st. listener_session (f st) = listener_session st) \<and>
            (srv' = srv \<or> srv' = srv\<lparr>heap := modify i f (heap srv)\<rparr>)"
  proof (cases "deref (heap srv) i")
    case None
    then show ?thesis using assms(2) TimerFires by (auto simp: server_step_def)
  next
    case (Some st)
    obtain a o' where b: "bucket cfg now (aggregator st) = (a, o')"
      by (cases "bucket cfg now (aggregator st)")
    have "srv' = srv \<or> srv' = srv\<lparr>heap := modify i (\<lambda>st. st\<lparr>aggregator := a\<rparr>) (heap srv)\<rparr>"
      using assms(2) TimerFires Some b by (auto simp: server_step_def split: if_splits)
    moreover have "\<forall>st. listener_session (st\<lparr>aggregator := a\<rparr>) = listener_session st" by simp
    ultimately show ?thesis by blast
  qed
  then show ?thesis using assms(1) server_ok_heap[OF assms(1) heap_ext_modify] by auto
next
  case (GatewayDepth i msg)
  have "srv' = srv \<or>
        srv' = srv\<lparr>heap := modify i (\<lambda>st. st\<lparr>aggregator := handleDepth (aggregator st) msg\<rparr>)
                              (heap srv)\<rparr>"
    using assms(2) GatewayDepth by (auto simp: server_step_def split: option.splits if_splits)
  then show ?thesis using assms(1) server_ok_heap[OF assms(1) heap_ext_modify] by auto
next
  case (GatewayTrade i msg)
  have "srv' = srv \<or>
        srv' = srv\<lparr>heap := modify i (\<lambda>st. st\<lparr>aggregator := handleTrade gt (aggregator st) msg\<rparr>)
                              (heap srv)\<rparr>"
    using assms(2) GatewayTrade by (auto simp: server_step_def split: option.splits if_splits)
  then show ?thesis using assms(1) server_ok_heap[OF assms(1) heap_ext_modify] by auto
qed

lemma server_run_inv:
  "server_ok srv \<Longrightarrow> server_run cfg gt srv evs = (srv', outs) \<Longrightarrow> server_ok srv'"
proof (induction evs arbitrary: srv srv' outs)
  case Nil
  then show ?case by simp
next
  case (Cons ev evs)
  obtain s1 out where st: "server_step cfg gt srv ev = (s1, out)"
    by (cases "server_step cfg gt srv ev")
  obtain s2 os where rn: "server_run cfg gt s1 evs = (s2, os)"
    by (cases "server_run cfg gt s1 evs")
  have "srv' = s2" using Cons.prems(2) st rn by simp
  then show ?case using Cons.IH[OF server_step_inv[OF Cons.prems(1) st] rn] by simp
qed

lemma server_ok_initial: "streams srv = [] \<Longrightarrow> requests srv = [] \<Longrightarrow> server_ok srv"
  by (simp add: server_ok_def reg_ok_def)

lemma refresh_one_token:
  assumes "i < length (heap srv)"
  shows "(\<forall>d session. res = Resolved d \<and> success d \<and>
              map_of (sessionStore srv) sid = Some session \<and> accessToken session \<noteq> [] \<longrightarrow>
            token (socket (heap (refresh_one (res, now) sid i srv) ! i)) =
              (case newToken d of
                 Some t \<Rightarrow> if t \<noteq> [] then t else accessToken session
               | None \<Rightarrow> accessToken session)) \<and>
         (res = Rejected \<or> (\<exists>d. res = Resolved d \<and> \<not> success d) \<or>
          map_of (sessionStore srv) sid = None
            \<longrightarrow> token (socket (heap (refresh_one (res, now) sid i srv) ! i))
                  = token (socket (heap srv ! i)))"
  using assms
  by (auto simp: refresh_one_def validateAndRefresh_def nth_modify updateToken_def
           split: option.splits)

section \<open>Claims\<close>

text \<open>
  C1. With no bid level, no ask level, an empty trade buffer and \<^verbatim>\<open>lastMidTick\<close> still
  unset (0), \<^verbatim>\<open>bucket()\<close> does not call the listener and leaves the whole state as it
  was.
\<close>

theorem bucket_no_data_suppressed:
  assumes "bids s = []" and "asks s = []"
    and "currentBucketTrades s = []" and "lastMidTick s = 0"
  shows "bucket cfg now s = (s, None)"
  using assms by (simp add: bucket_def resolveMidTick_def bestBid_Nil bestAsk_Nil)

theorem bucket_no_data_suppressed_witness:
  "bucket \<lparr>BUCKET_MS = 100, PRICE_WINDOW_TICKS = 200\<rparr> 1000
     (MarketAggregator_new ''ES'' (1 / 4))
   = (MarketAggregator_new ''ES'' (1 / 4), None)"
  using bucket_no_data_suppressed
    [of "MarketAggregator_new ''ES'' (1 / 4)" "\<lparr>BUCKET_MS = 100, PRICE_WINDOW_TICKS = 200\<rparr>" 1000]
  by (simp add: MarketAggregator_new_def)

text \<open>
  C2 (amended). When the book has a best bid \<open>b\<close> (the largest bid tick) and a best ask
  \<open>a\<close> (the smallest ask tick) and \<open>round((b + a) / 2)\<close> is not 0, \<^verbatim>\<open>bucket()\<close> emits a
  column whose \<^verbatim>\<open>midTick\<close> is \<open>round((b + a) / 2)\<close>, which is \<open>(b + a + 1) div 2\<close>; with
  best bid 100 and best ask 104 it is 102. (When the rounded mean is 0 the code falls
  back to the best bid, then to the best ask, and emits nothing if all are 0.)
\<close>

theorem bucket_mid_of_best_bid_ask:
  assumes "bids s \<noteq> []" and "asks s \<noteq> []"
    and "b = Max (fst ` set (bids s))" and "a = Min (fst ` set (asks s))"
    and "Math_round (of_int (b + a) / 2) \<noteq> 0"
  shows "bestBid (bids s) = Some b \<and> bestAsk (asks s) = Some a \<and>
         map_option midTick (snd (bucket cfg now s)) = Some (Math_round (of_int (b + a) / 2)) \<and>
         Math_round (of_int (b + a) / 2) = (b + a + 1) div 2 \<and>
         (b = 100 \<and> a = 104 \<longrightarrow> map_option midTick (snd (bucket cfg now s)) = Some 102)"
proof -
  have bb: "bestBid (bids s) = Some b" using assms by (simp add: bestBid_Max)
  have ba: "bestAsk (asks s) = Some a" using assms by (simp add: bestAsk_Min)
  have r: "resolveMidTick s = Math_round (of_int (b + a) / 2)"
    using resolve_both[OF bb ba assms(5)] .
  have e: "map_option midTick (snd (bucket cfg now s)) = Some (Math_round (of_int (b + a) / 2))"
    using assms(5) r by (simp add: bucket_emits)
  have h: "Math_round (of_int (b + a) / 2) = (b + a + 1) div 2" by (rule Math_round_half)
  have p: "b = 100 \<and> a = 104 \<longrightarrow> map_option midTick (snd (bucket cfg now s)) = Some 102"
    using e h by auto
  show ?thesis using bb ba e h p by blast
qed

text \<open>
  The witness: bids at ticks 100 and 99, asks at ticks 104 and 105, fed through
  \<^verbatim>\<open>handleDepth\<close>; the column's mid tick is 102.
\<close>

theorem bucket_mid_of_best_bid_ask_witness:
  "map_option midTick (snd (bucket cfg_default 1000
     (foldl handleDepth es_new
        [depthMsg 2 25 5, depthMsg 2 (99 / 4) 3, depthMsg 1 26 2, depthMsg 1 (105 / 4) 7])))
   = Some 102"
proof -
  define s where "s = foldl handleDepth es_new
        [depthMsg 2 25 5, depthMsg 2 (99 / 4) 3, depthMsg 1 26 2, depthMsg 1 (105 / 4) 7]"
  have b: "bids s = [(100, 5), (99, 3)]" unfolding s_def by code_simp
  have a: "asks s = [(104, 2), (105, 7)]" unfolding s_def by code_simp
  have 1: "bids s \<noteq> []" and 2: "asks s \<noteq> []" by (simp_all add: a b)
  have 3: "100 = Max (fst ` set (bids s))" by (simp add: b)
  have 4: "104 = Min (fst ` set (asks s))" by (simp add: a)
  have 5: "Math_round (of_int (100 + 104) / 2) \<noteq> 0" by code_simp
  show ?thesis
    using bucket_mid_of_best_bid_ask[OF 1 2 3 4 5, of cfg_default 1000]
    unfolding s_def by simp
qed

text \<open>
  The claim as stated fails when the rounded mean is 0: with the best bid at tick -1 and
  the best ask at tick 1 the column is anchored at the best bid, -1.
\<close>

theorem bucket_mid_of_best_bid_ask_counterexample:
  "bestBid (bids (foldl handleDepth es_new [depthMsg 2 (- 1 / 4) 5, depthMsg 1 (1 / 4) 5]))
     = Some (- 1) \<and>
   bestAsk (asks (foldl handleDepth es_new [depthMsg 2 (- 1 / 4) 5, depthMsg 1 (1 / 4) 5]))
     = Some 1 \<and>
   Math_round (of_int (- 1 + 1) / 2) = 0 \<and>
   map_option midTick (snd (bucket cfg_default 1000
     (foldl handleDepth es_new [depthMsg 2 (- 1 / 4) 5, depthMsg 1 (1 / 4) 5]))) = Some (- 1)"
  by code_simp

text \<open>
  C3 (amended). When best bid and best ask are not both known and the trade buffer is not
  empty, and the most recent buffered trade is at a tick other than 0, \<^verbatim>\<open>bucket()\<close> emits
  a column whose \<^verbatim>\<open>midTick\<close> is that trade's \<^verbatim>\<open>priceTick\<close>; with an empty book and one
  buffered trade at tick 50 the column's \<^verbatim>\<open>midTick\<close> is 50.
\<close>

theorem bucket_mid_of_last_trade:
  assumes "bestBid (bids s) = None \<or> bestAsk (asks s) = None"
    and "currentBucketTrades s \<noteq> []"
    and "priceTick (last (currentBucketTrades s)) \<noteq> 0"
  shows "map_option midTick (snd (bucket cfg now s))
           = Some (priceTick (last (currentBucketTrades s))) \<and>
         (bids s = [] \<and> asks s = [] \<and> map priceTick (currentBucketTrades s) = [50]
            \<longrightarrow> map_option midTick (snd (bucket cfg now s)) = Some 50)"
proof -
  have r: "resolveMidTick s = priceTick (last (currentBucketTrades s))"
    using assms by (rule resolve_trade)
  have e: "map_option midTick (snd (bucket cfg now s))
           = Some (priceTick (last (currentBucketTrades s)))"
    using assms(3) r by (simp add: bucket_emits)
  have "map priceTick (currentBucketTrades s) = [50] \<Longrightarrow>
        priceTick (last (currentBucketTrades s)) = 50"
    by (cases "currentBucketTrades s") auto
  with e show ?thesis by auto
qed

theorem bucket_mid_of_last_trade_witness:
  "map_option midTick (snd (bucket cfg_default 1000
     (handleTrade epoch es_new (tradeMsg (25 / 2) 3 0)))) = Some 50"
proof -
  define s where "s = handleTrade epoch es_new (tradeMsg (25 / 2) 3 0)"
  have 1: "bestBid (bids s) = None \<or> bestAsk (asks s) = None" unfolding s_def by code_simp
  have 2: "currentBucketTrades s \<noteq> []" unfolding s_def by (simp add: handleTrade_def)
  have t: "priceTick (last (currentBucketTrades s)) = 50" unfolding s_def by code_simp
  have 3: "priceTick (last (currentBucketTrades s)) \<noteq> 0" by (simp add: t)
  show ?thesis
    using bucket_mid_of_last_trade[OF 1 2 3, of cfg_default 1000] t
    unfolding s_def by simp
qed

text \<open>
  The claim as stated fails for a trade at tick 0: with an empty book and one buffered
  trade at price 0, nothing is emitted.
\<close>

theorem bucket_mid_of_last_trade_counterexample:
  "bestBid (bids (handleTrade epoch es_new (tradeMsg 0 3 0))) = None \<and>
   map priceTick (currentBucketTrades (handleTrade epoch es_new (tradeMsg 0 3 0))) = [0] \<and>
   snd (bucket cfg_default 1000 (handleTrade epoch es_new (tradeMsg 0 3 0))) = None"
  by code_simp

text \<open>
  C10. Every column that \<^verbatim>\<open>bucket()\<close> emits has a \<^verbatim>\<open>midTick\<close> other than 0: the column's
  \<^verbatim>\<open>midTick\<close> is the resolved mid tick, and whenever the resolved mid tick is 0 (an
  instrument priced at tick 0 included) nothing is emitted and the state is unchanged.
\<close>

theorem bucket_never_emits_mid_zero:
  "(\<forall>s' col. bucket cfg now s = (s', Some col)
       \<longrightarrow> midTick col = resolveMidTick s \<and> midTick col \<noteq> 0) \<and>
   (resolveMidTick s = 0 \<longrightarrow> bucket cfg now s = (s, None))"
proof (cases "resolveMidTick s = 0")
  case True
  then show ?thesis by (simp add: bucket_suppressed)
next
  case False
  then show ?thesis by (auto simp: bucket_emits)
qed

text \<open>
  The witness: a book with a bid and an ask both at tick 0 emits nothing, and a book with
  a bid at tick 100 only emits a column anchored at 100.
\<close>

theorem bucket_never_emits_mid_zero_witness:
  "resolveMidTick (foldl handleDepth es_new [depthMsg 2 0 5, depthMsg 1 0 7]) = 0 \<and>
   bucket cfg_default 1000 (foldl handleDepth es_new [depthMsg 2 0 5, depthMsg 1 0 7])
     = (foldl handleDepth es_new [depthMsg 2 0 5, depthMsg 1 0 7], None) \<and>
   map_option midTick (snd (bucket cfg_default 1000 (handleDepth es_new (depthMsg 2 25 5))))
     = Some 100 \<and> (100::int) \<noteq> 0"
proof -
  have z: "resolveMidTick (foldl handleDepth es_new [depthMsg 2 0 5, depthMsg 1 0 7]) = 0"
    by code_simp
  have e: "map_option midTick (snd (bucket cfg_default 1000 (handleDepth es_new (depthMsg 2 25 5))))
     = Some 100" by code_simp
  show ?thesis
    using bucket_never_emits_mid_zero
            [of cfg_default 1000 "foldl handleDepth es_new [depthMsg 2 0 5, depthMsg 1 0 7]"] z e
    by simp
qed

text \<open>
  C4. Every column that \<^verbatim>\<open>bucket()\<close> emits has bid and ask arrays of length \<open>W\<close>, the
  configured window size, and slot \<open>i\<close> of either array holds the volume the book stores
  for that side at tick \<open>midTick - W div 2 + i\<close>, or 0 when the tick is absent. So when the
  state bucketed is the result of a bid update of tick \<open>T\<close> to volume \<open>V\<close>, the slot of the
  bid array whose tick is \<open>T\<close> reads \<open>V\<close> (0 after an update to volume 0).
\<close>

theorem bucket_window:
  assumes "bucket cfg now s = (s', Some col)" and "W = PRICE_WINDOW_TICKS cfg"
  shows "length (col_bids col) = W \<and> length (col_asks col) = W \<and>
         (\<forall>i<W. col_bids col ! i =
                   (case map_of (bids s) (midTick col - int (W div 2) + int i) of
                      None \<Rightarrow> 0 | Some v \<Rightarrow> v) \<and>
                 col_asks col ! i =
                   (case map_of (asks s) (midTick col - int (W div 2) + int i) of
                      None \<Rightarrow> 0 | Some v \<Rightarrow> v)) \<and>
         (\<forall>s0 msg i. s = handleDepth s0 msg \<and>
              (domType msg = 2 \<or> domType msg = 4 \<or> domType msg = 9) \<and> i < W \<and>
              midTick col - int (W div 2) + int i = Math_round (depth_price msg / tickSize s0)
              \<longrightarrow> col_bids col ! i = depth_volume msg)"
proof -
  have nz: "resolveMidTick s \<noteq> 0"
    using assms(1) by (auto simp: bucket_def split: if_splits)
  have col: "col = \<lparr>col_t = now, midTick = resolveMidTick s,
            col_bids = window (bids s) (resolveMidTick s - int (W div 2)) W,
            col_asks = window (asks s) (resolveMidTick s - int (W div 2)) W,
            trades = currentBucketTrades s\<rparr>"
    using assms bucket_emits[OF nz, of cfg now] by simp
  have len: "length (col_bids col) = W \<and> length (col_asks col) = W"
    by (simp add: col length_window)
  have slots: "\<forall>i<W. col_bids col ! i =
                   (case map_of (bids s) (midTick col - int (W div 2) + int i) of
                      None \<Rightarrow> 0 | Some v \<Rightarrow> v) \<and>
                 col_asks col ! i =
                   (case map_of (asks s) (midTick col - int (W div 2) + int i) of
                      None \<Rightarrow> 0 | Some v \<Rightarrow> v)"
    by (simp add: col window_nth get_or_0_eq)
  have rt: "col_bids col ! i = depth_volume msg"
    if h: "s = handleDepth s0 msg" "domType msg = 2 \<or> domType msg = 4 \<or> domType msg = 9"
      "i < W" "midTick col - int (W div 2) + int i = Math_round (depth_price msg / tickSize s0)"
    for s0 msg i
  proof -
    have "map_of (bids s) (Math_round (depth_price msg / tickSize s0)) =
          (if depth_volume msg = 0 then None else Some (depth_volume msg))"
      unfolding h(1) handleDepth_bid[OF h(2)]
      by (simp add: AList.update_conv' AList.delete_conv')
    then show ?thesis using slots h(3) h(4) by simp
  qed
  show ?thesis using len slots rt by blast
qed

text \<open>
  The witness: with the default window of 200 ticks, a bid of volume 5 at tick 100 (price
  25 at tick size 1/4) anchors the column at 100 and is read back at slot 100; after the
  level is set to volume 0 and another bid at tick 98 remains, slot 102 (tick 100 of a
  column anchored at 98) reads 0.
\<close>

theorem bucket_window_witness:
  "map_option (\<lambda>c. (length (col_bids c), length (col_asks c), midTick c, col_bids c ! 100))
     (snd (bucket cfg_default 1000 (handleDepth es_new (depthMsg 2 25 5))))
     = Some (200, 200, 100, 5) \<and>
   map_option (\<lambda>c. (midTick c, col_bids c ! 102))
     (snd (bucket cfg_default 1000
        (handleDepth (foldl handleDepth es_new [depthMsg 2 25 5, depthMsg 2 (49 / 2) 3])
           (depthMsg 2 25 0))))
     = Some (98, 0)"
proof -
  define s1 where "s1 = handleDepth es_new (depthMsg 2 25 5)"
  define s2 where "s2 = foldl handleDepth es_new [depthMsg 2 25 5, depthMsg 2 (49 / 2) 3]"
  define s3 where "s3 = handleDepth s2 (depthMsg 2 25 0)"
  have W: "PRICE_WINDOW_TICKS cfg_default = 200" by (simp add: cfg_default_def)
  have ty: "domType (depthMsg 2 25 5) = 2" "domType (depthMsg 2 25 0) = 2"
    "depth_volume (depthMsg 2 25 5) = 5" "depth_volume (depthMsg 2 25 0) = 0"
    by (simp_all add: depthMsg_def)
  have tk1: "Math_round (depth_price (depthMsg 2 25 5) / tickSize es_new) = 100" by code_simp
  have tk3: "Math_round (depth_price (depthMsg 2 25 0) / tickSize s2) = 100"
    unfolding s2_def by code_simp
  have r1: "resolveMidTick s1 = 100" unfolding s1_def by code_simp
  have r3: "resolveMidTick s3 = 98" unfolding s3_def s2_def by code_simp
  obtain s1' c1 where e1: "bucket cfg_default 1000 s1 = (s1', Some c1)"
    using r1 by (simp add: bucket_emits)
  obtain s3' c3 where e3: "bucket cfg_default 1000 s3 = (s3', Some c3)"
    using r3 by (simp add: bucket_emits)
  have m1: "midTick c1 = 100" using bucket_Some_midTick[OF e1] r1 by simp
  have m3: "midTick c3 = 98" using bucket_Some_midTick[OF e3] r3 by simp
  note w1 = bucket_window[OF e1 W[symmetric]]
  note w3 = bucket_window[OF e3 W[symmetric]]
  have len: "length (col_bids c1) = 200" "length (col_asks c1) = 200" using w1 by blast+
  have "s1 = handleDepth es_new (depthMsg 2 25 5) \<and>
        (domType (depthMsg 2 25 5) = 2 \<or> domType (depthMsg 2 25 5) = 4
           \<or> domType (depthMsg 2 25 5) = 9) \<and> (100::nat) < 200 \<and>
        midTick c1 - int (200 div 2) + int 100
          = Math_round (depth_price (depthMsg 2 25 5) / tickSize es_new)"
    by (simp add: s1_def ty m1 tk1)
  with w1 have v1: "col_bids c1 ! 100 = depth_volume (depthMsg 2 25 5)" by blast
  have "s3 = handleDepth s2 (depthMsg 2 25 0) \<and>
        (domType (depthMsg 2 25 0) = 2 \<or> domType (depthMsg 2 25 0) = 4
           \<or> domType (depthMsg 2 25 0) = 9) \<and> (102::nat) < 200 \<and>
        midTick c3 - int (200 div 2) + int 102
          = Math_round (depth_price (depthMsg 2 25 0) / tickSize s2)"
    by (simp add: s3_def ty m3 tk3)
  with w3 have v3: "col_bids c3 ! 102 = depth_volume (depthMsg 2 25 0)" by blast
  show ?thesis
    using e1 e3 len m1 m3 v1 v3 ty unfolding s1_def s2_def s3_def by simp
qed

text \<open>
  C5. A depth update on the bid side (types 2, 4, 9) or on the ask side (types 1, 3, 10)
  leaves the other side alone and, on its own side, removes the tick when the volume is 0
  (the map is unchanged when the tick is absent) and otherwise sets the tick's volume,
  overwriting any earlier one. After a volume-0 update for tick \<open>T\<close> the tick is not a key
  any more, the best-bid (best-ask) scan does not return \<open>T\<close>, and the map's size has gone
  down by exactly one if \<open>T\<close> was present.
\<close>

theorem depth_update_book:
  assumes "tick = Math_round (depth_price msg / tickSize s)" and "v = depth_volume msg"
    and "s' = handleDepth s msg"
  shows
    "(domType msg \<in> {2, 4, 9} \<longrightarrow>
        asks s' = asks s \<and>
        map_of (bids s') = (if v = 0 then (map_of (bids s))(tick := None)
                            else (map_of (bids s))(tick \<mapsto> v)) \<and>
        (Map_ok (bids s) \<longrightarrow> Map_ok (bids s')) \<and>
        (v = 0 \<longrightarrow>
           tick \<notin> fst ` set (bids s') \<and> bestBid (bids s') \<noteq> Some tick \<and>
           (tick \<notin> fst ` set (bids s) \<longrightarrow> bids s' = bids s) \<and>
           (Map_ok (bids s) \<and> tick \<in> fst ` set (bids s)
              \<longrightarrow> length (bids s') + 1 = length (bids s)))) \<and>
     (domType msg \<in> {1, 3, 10} \<longrightarrow>
        bids s' = bids s \<and>
        map_of (asks s') = (if v = 0 then (map_of (asks s))(tick := None)
                            else (map_of (asks s))(tick \<mapsto> v)) \<and>
        (Map_ok (asks s) \<longrightarrow> Map_ok (asks s')) \<and>
        (v = 0 \<longrightarrow>
           tick \<notin> fst ` set (asks s') \<and> bestAsk (asks s') \<noteq> Some tick \<and>
           (tick \<notin> fst ` set (asks s) \<longrightarrow> asks s' = asks s) \<and>
           (Map_ok (asks s) \<and> tick \<in> fst ` set (asks s)
              \<longrightarrow> length (asks s') + 1 = length (asks s))))"
proof (intro conjI impI)
  assume d: "domType msg \<in> {2, 4, 9}"
  then have bid: "domType msg = 2 \<or> domType msg = 4 \<or> domType msg = 9" by simp
  note eq = handleDepth_bid[OF bid, of s, folded assms(1) assms(2)]
  show "asks s' = asks s" by (simp add: assms(3) eq)
  show "map_of (bids s') = (if v = 0 then (map_of (bids s))(tick := None)
                            else (map_of (bids s))(tick \<mapsto> v))"
    by (simp add: assms(3) eq AList.update_conv' AList.delete_conv')
  { assume "Map_ok (bids s)"
    then show "Map_ok (bids s')"
      by (simp add: assms(3) eq Map_ok_def AList.distinct_update AList.distinct_delete) }
  { assume z: "v = 0"
    show nk: "tick \<notin> fst ` set (bids s')"
      using AList.delete_notin_dom[of tick "bids s"] by (simp add: assms(3) eq z)
    show "bestBid (bids s') \<noteq> Some tick" using nk bestBid_in_keys by blast
    { assume "tick \<notin> fst ` set (bids s)"
      then show "bids s' = bids s" by (simp add: assms(3) eq z) }
    { assume "Map_ok (bids s) \<and> tick \<in> fst ` set (bids s)"
      then show "length (bids s') + 1 = length (bids s)"
        using length_delete_present[of "bids s" tick] by (simp add: assms(3) eq z Map_ok_def) } }
next
  assume d: "domType msg \<in> {1, 3, 10}"
  then have ask: "domType msg = 1 \<or> domType msg = 3 \<or> domType msg = 10" by simp
  note eq = handleDepth_ask[OF ask, of s, folded assms(1) assms(2)]
  show "bids s' = bids s" by (simp add: assms(3) eq)
  show "map_of (asks s') = (if v = 0 then (map_of (asks s))(tick := None)
                            else (map_of (asks s))(tick \<mapsto> v))"
    by (simp add: assms(3) eq AList.update_conv' AList.delete_conv')
  { assume "Map_ok (asks s)"
    then show "Map_ok (asks s')"
      by (simp add: assms(3) eq Map_ok_def AList.distinct_update AList.distinct_delete) }
  { assume z: "v = 0"
    show nk: "tick \<notin> fst ` set (asks s')"
      using AList.delete_notin_dom[of tick "asks s"] by (simp add: assms(3) eq z)
    show "bestAsk (asks s') \<noteq> Some tick" using nk bestAsk_in_keys by blast
    { assume "tick \<notin> fst ` set (asks s)"
      then show "asks s' = asks s" by (simp add: assms(3) eq z) }
    { assume "Map_ok (asks s) \<and> tick \<in> fst ` set (asks s)"
      then show "length (asks s') + 1 = length (asks s)"
        using length_delete_present[of "asks s" tick] by (simp add: assms(3) eq z Map_ok_def) } }
qed

text \<open>
  The witness: from bids at ticks 100 and 99, a bid update of tick 100 to volume 0 leaves
  the bid at tick 99 alone, which is then the best bid, and the size goes from 2 to 1;
  an ask update of tick 104 to volume 0 empties a book whose only ask is at tick 104.
\<close>

theorem depth_update_book_witness:
  "bids (handleDepth (foldl handleDepth es_new [depthMsg 2 25 5, depthMsg 2 (99 / 4) 3])
          (depthMsg 4 25 0)) = [(99, 3)] \<and>
   bestBid (bids (handleDepth (foldl handleDepth es_new [depthMsg 2 25 5, depthMsg 2 (99 / 4) 3])
          (depthMsg 4 25 0))) \<noteq> Some 100 \<and>
   length (bids (handleDepth (foldl handleDepth es_new [depthMsg 2 25 5, depthMsg 2 (99 / 4) 3])
          (depthMsg 4 25 0))) + 1 = 2 \<and>
   bestAsk (asks (handleDepth (handleDepth es_new (depthMsg 1 26 2)) (depthMsg 3 26 0)))
     \<noteq> Some 104 \<and>
   length (asks (handleDepth (handleDepth es_new (depthMsg 1 26 2)) (depthMsg 3 26 0))) + 1 = 1"
proof -
  let ?s = "foldl handleDepth es_new [depthMsg 2 25 5, depthMsg 2 (99 / 4) 3]"
  let ?u = "handleDepth es_new (depthMsg 1 26 2)"
  have bs: "bids ?s = [(100, 5), (99, 3)]" by code_simp
  have au: "asks ?u = [(104, 2)]" by code_simp
  have tb: "100 = Math_round (depth_price (depthMsg 4 25 0) / tickSize ?s)" by code_simp
  have ta: "104 = Math_round (depth_price (depthMsg 3 26 0) / tickSize ?u)" by code_simp
  have v: "0 = depth_volume (depthMsg 4 25 0)" "0 = depth_volume (depthMsg 3 26 0)"
    by (simp_all add: depthMsg_def)
  have d: "domType (depthMsg 4 25 0) \<in> {2, 4, 9}" "domType (depthMsg 3 26 0) \<in> {1, 3, 10}"
    by (simp_all add: depthMsg_def)
  have ok: "Map_ok (bids ?s) \<and> 100 \<in> fst ` set (bids ?s)"
    "Map_ok (asks ?u) \<and> 104 \<in> fst ` set (asks ?u)"
    unfolding bs au by (simp_all add: Map_ok_def)
  have r: "bids (handleDepth ?s (depthMsg 4 25 0)) = [(99, 3)]" by code_simp
  have B: "bestBid (bids (handleDepth ?s (depthMsg 4 25 0))) \<noteq> Some 100 \<and>
           length (bids (handleDepth ?s (depthMsg 4 25 0))) + 1 = length (bids ?s)"
    using depth_update_book[OF tb v(1) refl] d(1) ok(1) by blast
  have A: "bestAsk (asks (handleDepth ?u (depthMsg 3 26 0))) \<noteq> Some 104 \<and>
           length (asks (handleDepth ?u (depthMsg 3 26 0))) + 1 = length (asks ?u)"
    using depth_update_book[OF ta v(2) refl] d(2) ok(2) by blast
  have B2: "length (bids (handleDepth ?s (depthMsg 4 25 0))) + 1 = 2"
    using B unfolding bs by simp
  have A2: "length (asks (handleDepth ?u (depthMsg 3 26 0))) + 1 = 1"
    using A unfolding au by simp
  show ?thesis using r A B A2 B2 by blast
qed

text \<open>
  C6 (amended). Starting from an empty book, after any sequence of \<^verbatim>\<open>handleDepth\<close> calls
  no tick is present on either side with volume 0, and every volume present is the volume
  of one of the updates; so if no update carries a negative volume, no tick is present
  with a non-positive volume. (A negative volume in an update is stored as it is.)
\<close>

theorem handleDepth_no_zero_volume:
  assumes "bids s0 = []" and "asks s0 = []"
    and "s = foldl handleDepth s0 msgs"
    and "(t, v) \<in> set (bids s) \<union> set (asks s)"
  shows "v \<noteq> 0 \<and> v \<in> depth_volume ` set msgs \<and>
         ((\<forall>m \<in> set msgs. 0 \<le> depth_volume m) \<longrightarrow> 0 < v)"
proof -
  have 1: "v \<noteq> 0 \<and> v \<in> depth_volume ` set msgs"
    using handleDepth_foldl_entries[OF assms(1) assms(2), of t v msgs] assms(3) assms(4) by simp
  then have "(\<forall>m \<in> set msgs. 0 \<le> depth_volume m) \<longrightarrow> 0 < v" by force
  with 1 show ?thesis by simp
qed

theorem handleDepth_no_zero_volume_witness:
  "(100, 5) \<in> set (bids (foldl handleDepth es_new
        [depthMsg 2 25 5, depthMsg 1 26 2, depthMsg 2 (99 / 4) 3, depthMsg 2 (99 / 4) 0]))
   \<and> (5::int) \<noteq> 0 \<and> (0::int) < 5"
proof -
  define msgs where
    "msgs = [depthMsg 2 25 5, depthMsg 1 26 2, depthMsg 2 (99 / 4) 3, depthMsg 2 (99 / 4) 0]"
  have e: "bids es_new = []" "asks es_new = []"
    by (simp_all add: es_new_def MarketAggregator_new_def)
  have b: "bids (foldl handleDepth es_new msgs) = [(100, 5)]" unfolding msgs_def by code_simp
  have m: "(100, 5) \<in> set (bids (foldl handleDepth es_new msgs))
             \<union> set (asks (foldl handleDepth es_new msgs))" by (simp add: b)
  have nn: "\<forall>m \<in> set msgs. 0 \<le> depth_volume m" by (simp add: msgs_def depthMsg_def)
  show ?thesis
    using handleDepth_no_zero_volume[OF e refl m] nn b unfolding msgs_def by simp
qed

text \<open>
  The claim as stated fails for an update with a negative volume: a bid update of price 1
  (tick 4) with volume -5 on the empty book leaves tick 4 present with volume -5.
\<close>

theorem handleDepth_no_zero_volume_counterexample:
  "bids es_new = [] \<and> asks es_new = [] \<and>
   bids (handleDepth es_new (depthMsg 2 1 (- 5))) = [(4, - 5)] \<and> \<not> (0::int) < - 5"
  by code_simp

text \<open>
  C7. In any sequence of events since the stream was created, every emitted column holds
  exactly the trades handed to \<^verbatim>\<open>handleTrade\<close> since the previous emitted column (since
  creation if there was none), in arrival order, and the trade buffer is empty right after
  the emission; at the end of the sequence the buffer holds the trades since the last
  emitted column. A reset (type 6) leaves both sides of the book empty whatever they
  held, and does not touch the trade buffer.
\<close>

theorem trades_of_column:
  assumes "run cfg gt (MarketAggregator_new cid ts) evs = (s, outs)"
  shows "(\<forall>k col. k < length evs \<and> outs ! k = Some col \<longrightarrow>
            trades col = trades_since_last_emit gt ts [] (zip (take k evs) (take k outs)) \<and>
            currentBucketTrades
              (fst (run cfg gt (MarketAggregator_new cid ts) (take (Suc k) evs))) = []) \<and>
         currentBucketTrades s = trades_since_last_emit gt ts [] (zip evs outs) \<and>
         (\<forall>s0 msg. domType msg = 6 \<longrightarrow>
            bids (handleDepth s0 msg) = [] \<and> asks (handleDepth s0 msg) = [] \<and>
            currentBucketTrades (handleDepth s0 msg) = currentBucketTrades s0)"
proof -
  have new: "tickSize (MarketAggregator_new cid ts) = ts"
    "currentBucketTrades (MarketAggregator_new cid ts) = []"
    by (simp_all add: MarketAggregator_new_def)
  have emit: "trades col = trades_since_last_emit gt ts [] (zip (take k evs) (take k outs)) \<and>
              currentBucketTrades
                (fst (run cfg gt (MarketAggregator_new cid ts) (take (Suc k) evs))) = []"
    if "k < length evs \<and> outs ! k = Some col" for k col
    using run_emitted[OF assms, of k col] that by (simp add: new)
  have buf: "currentBucketTrades s = trades_since_last_emit gt ts [] (zip evs outs)"
    using run_buffer[OF assms] by (simp add: new)
  have reset: "bids (handleDepth s0 msg) = [] \<and> asks (handleDepth s0 msg) = [] \<and>
               currentBucketTrades (handleDepth s0 msg) = currentBucketTrades s0"
    if "domType msg = 6" for s0 msg
    using that by (simp add: handleDepth_reset)
  show ?thesis using emit buf reset by blast
qed

text \<open>
  The witness: a stream is started and receives a trade at tick 0; the first timer firing
  emits nothing and keeps the trade; after a second trade at tick 50 the next firing
  (event 4) emits both trades in order and empties the buffer; then a bid and a trade at
  tick 52 arrive, and the last firing emits that one trade.
\<close>

theorem trades_of_column_witness:
  "map (map_option (map priceTick \<circ> trades)) (snd (run cfg_default epoch es_new example_events))
     = [None, None, None, None, Some [0, 50], None, None, Some [52]] \<and>
   map priceTick (trades_since_last_emit epoch (1 / 4) []
       (zip (take 4 example_events)
            (take 4 (snd (run cfg_default epoch es_new example_events))))) = [0, 50] \<and>
   map_option trades (snd (run cfg_default epoch es_new example_events) ! 4)
     = Some (trades_since_last_emit epoch (1 / 4) []
          (zip (take 4 example_events)
               (take 4 (snd (run cfg_default epoch es_new example_events))))) \<and>
   currentBucketTrades (fst (run cfg_default epoch es_new (take 5 example_events))) = [] \<and>
   bids (handleDepth (fst (run cfg_default epoch es_new example_events)) (depthMsg 6 0 0)) = []"
proof -
  let ?r = "run cfg_default epoch es_new example_events"
  have a: "run cfg_default epoch (MarketAggregator_new ''ES'' (1 / 4)) example_events
             = (fst ?r, snd ?r)"
    by (simp add: es_new_def)
  note T = trades_of_column[OF a]
  have 1: "map (map_option (map priceTick \<circ> trades)) (snd ?r)
             = [None, None, None, None, Some [0, 50], None, None, Some [52]]" by code_simp
  have 2: "map priceTick (trades_since_last_emit epoch (1 / 4) []
             (zip (take 4 example_events) (take 4 (snd ?r)))) = [0, 50]" by code_simp
  have "snd ?r ! 4 \<noteq> None" by code_simp
  then obtain col where c: "snd ?r ! 4 = Some col" by auto
  have k: "4 < length example_events \<and> snd ?r ! 4 = Some col"
    using c by (simp add: example_events_def)
  have 3: "trades col = trades_since_last_emit epoch (1 / 4) []
             (zip (take 4 example_events) (take 4 (snd ?r))) \<and>
           currentBucketTrades
             (fst (run cfg_default epoch (MarketAggregator_new ''ES'' (1 / 4))
                (take (Suc 4) example_events))) = []"
    using T k by blast
  have d: "domType (depthMsg 6 0 0) = 6" by (simp add: depthMsg_def)
  have 4: "bids (handleDepth (fst ?r) (depthMsg 6 0 0)) = []" using T d by blast
  have 5: "currentBucketTrades (fst (run cfg_default epoch es_new (take 5 example_events))) = []"
    using 3 by (simp add: es_new_def)
  have 6: "map_option trades (snd ?r ! 4)
             = Some (trades_since_last_emit epoch (1 / 4) []
                  (zip (take 4 example_events) (take 4 (snd ?r))))"
    using 3 by (simp add: c)
  show ?thesis using 1 2 4 5 6 by blast
qed

text \<open>
  C8. The claim: a session never has two running streams, because a second
  \<^verbatim>\<open>/stream/start\<close> stops and unregisters the stream it finds before it creates the next.
  The handler looks the registry up at its start and registers its own stream only after
  three waits, so a second request of the same session that arrives during these waits
  finds no stream to stop. Below, both requests are answered with status 200, the registry
  points at the second stream only, both aggregators have their timer set and their
  socket connected, and after the registration of the second stream both of them
  broadcast a column to the clients of session \<open>S\<close>.
\<close>

theorem overlapping_starts_two_running:
  "(case server_run cfg_default epoch server_logged_in overlapping_starts of
      (srv, outs) \<Rightarrow>
        map snd (requests srv) = [Responded 200, Responded 200] \<and>
        streams srv = [(''S'', 1)] \<and>
        map listener_session (heap srv) = [''S'', ''S''] \<and>
        map (intervalId \<circ> aggregator) (heap srv) = [True, True] \<and>
        map (isConnected \<circ> socket) (heap srv) = [True, True] \<and>
        map (map_option (\<lambda>(sessionId, col). (sessionId, midTick col))) outs =
          [None, None, None, None, None, None, None, None, None, None,
           Some (''S'', 100), Some (''S'', 102)])"
  by code_simp

text \<open>
  For comparison, the same two requests one after the other: the second waits for the
  first stream's socket to stop, clears its timer and unregisters it before it creates
  its own; the first stream's timer is not set any more and only the second stream
  broadcasts.
\<close>

lemma sequential_starts_replace:
  "(case server_run cfg_default epoch server_logged_in sequential_starts of
      (srv, outs) \<Rightarrow>
        map snd (requests srv) = [Responded 200, Responded 200] \<and>
        streams srv = [(''S'', 1)] \<and>
        map (intervalId \<circ> aggregator) (heap srv) = [False, True] \<and>
        map (isConnected \<circ> socket) (heap srv) = [False, True] \<and>
        map (map_option (\<lambda>(sessionId, col). (sessionId, midTick col))) outs =
          [None, None, None, None, None, None, None, None, None, None, None,
           None, Some (''S'', 102)])"
  by code_simp

text \<open>
  C9. A token refresh cycle, for every stream registered in a well-formed registry (cell
  \<open>i\<close> registered for session \<open>sid\<close>), changes nothing of the stream but the token stored
  in its socket: the aggregator (book, trade buffer, \<^verbatim>\<open>lastMidTick\<close>, timer) and the
  socket's connected flag are as before the cycle. When the gateway answers the session's
  validation with success, the stored token after the cycle is the session's token (the
  new token if the answer carries one); when the request is rejected, the answer is not a
  success or the session is gone, the stored token is the one from before the cycle. The
  cycle leaves the registry as it was, keeps every aggregator and every connected flag,
  and does not touch a cell that is not registered.
\<close>

theorem token_refresh_frame:
  assumes "reg_ok (heap srv) (streams srv)" and "(sid, i) \<in> set (streams srv)"
    and "answers sid = (res, now)"
    and "st = heap srv ! i" and "st' = heap (token_refresh_cycle answers srv) ! i"
  shows "aggregator st' = aggregator st \<and>
         isConnected (socket st') = isConnected (socket st) \<and>
         (\<forall>d session. res = Resolved d \<and> success d \<and>
              map_of (sessionStore srv) sid = Some session \<and> accessToken session \<noteq> [] \<longrightarrow>
            token (socket st') =
              (case newToken d of
                 Some t \<Rightarrow> if t \<noteq> [] then t else accessToken session
               | None \<Rightarrow> accessToken session)) \<and>
         (res = Rejected \<or> (\<exists>d. res = Resolved d \<and> \<not> success d) \<or>
          map_of (sessionStore srv) sid = None
            \<longrightarrow> token (socket st') = token (socket st)) \<and>
         streams (token_refresh_cycle answers srv) = streams srv \<and>
         length (heap (token_refresh_cycle answers srv)) = length (heap srv) \<and>
         (\<forall>j < length (heap srv).
            aggregator (heap (token_refresh_cycle answers srv) ! j) = aggregator (heap srv ! j) \<and>
            isConnected (socket (heap (token_refresh_cycle answers srv) ! j))
              = isConnected (socket (heap srv ! j)) \<and>
            (j \<notin> snd ` set (streams srv)
               \<longrightarrow> heap (token_refresh_cycle answers srv) ! j = heap srv ! j))"
proof -
  have d1: "distinct (map fst (streams srv))" using assms(1) by (simp add: reg_ok_def)
  have d2: "distinct (map snd (streams srv))" using assms(1) by (rule reg_ok_distinct_snd)
  have i: "i < length (heap srv)" using assms(1) assms(2) by (auto simp: reg_ok_def)
  have cell: "st' = heap (refresh_one (res, now) sid i srv) ! i"
    using refresh_loop_cell[OF d1 d2 assms(2) i, of answers]
    by (simp add: assms(5) assms(3) token_refresh_cycle_def)
  have cyc: "streams (token_refresh_cycle answers srv) = streams srv \<and>
         length (heap (token_refresh_cycle answers srv)) = length (heap srv) \<and>
         (\<forall>j < length (heap srv).
            aggregator (heap (token_refresh_cycle answers srv) ! j) = aggregator (heap srv ! j) \<and>
            isConnected (socket (heap (token_refresh_cycle answers srv) ! j))
              = isConnected (socket (heap srv ! j)))"
    using refresh_loop_frame[of answers "streams srv" srv]
    by (simp add: token_refresh_cycle_def)
  have fr: "aggregator st' = aggregator st \<and>
            isConnected (socket st') = isConnected (socket st)"
    using cyc i by (simp add: assms(4) assms(5))
  have other: "heap (token_refresh_cycle answers srv) ! j = heap srv ! j"
    if "j < length (heap srv)" and "j \<notin> snd ` set (streams srv)" for j
    using refresh_loop_other_cell[OF that(2) that(1), of answers]
    by (simp add: token_refresh_cycle_def)
  note tok = refresh_one_token[OF i, of res sid now, folded cell, folded assms(4)]
  show ?thesis using fr tok cyc other by blast
qed

text \<open>
  The registry is well formed in every state the server reaches from one without streams
  and requests, so the statement covers every active stream.
\<close>

lemma reachable_registry_ok:
  assumes "streams srv0 = []" and "requests srv0 = []"
    and "server_run cfg gt srv0 evs = (srv, outs)"
  shows "reg_ok (heap srv) (streams srv)"
  using server_run_inv[OF server_ok_initial[OF assms(1) assms(2)] assms(3)]
  by (simp add: server_ok_def)

text \<open>
  The witness: sessions \<open>S\<close> and \<open>T\<close> each have a running stream, the one of \<open>S\<close> with a bid
  at tick 100. In one cycle the gateway hands \<open>S\<close> the new token \<open>jwt2\<close> and rejects the
  request for \<open>T\<close>: the socket of \<open>S\<close> holds \<open>jwt2\<close> afterwards, the socket of \<open>T\<close> still
  \<open>jwt9\<close>, and both aggregators are as before.
\<close>

theorem token_refresh_frame_witness:
  "streams (fst (server_run cfg_default epoch server_two_logins two_sessions_started))
     = [(''S'', 0), (''T'', 1)] \<and>
   map (token \<circ> socket)
     (heap (fst (server_run cfg_default epoch server_two_logins two_sessions_started)))
     = [''jwt1'', ''jwt9''] \<and>
   token (socket (heap (token_refresh_cycle example_answers
      (fst (server_run cfg_default epoch server_two_logins two_sessions_started))) ! 0))
     = ''jwt2'' \<and>
   token (socket (heap (token_refresh_cycle example_answers
      (fst (server_run cfg_default epoch server_two_logins two_sessions_started))) ! 1))
     = ''jwt9'' \<and>
   aggregator (heap (token_refresh_cycle example_answers
      (fst (server_run cfg_default epoch server_two_logins two_sessions_started))) ! 0)
     = aggregator
         (heap (fst (server_run cfg_default epoch server_two_logins two_sessions_started)) ! 0) \<and>
   bids (aggregator
      (heap (fst (server_run cfg_default epoch server_two_logins two_sessions_started)) ! 0))
     = [(100, 5)] \<and>
   intervalId (aggregator
      (heap (fst (server_run cfg_default epoch server_two_logins two_sessions_started)) ! 0))"
proof -
  let ?srv = "fst (server_run cfg_default epoch server_two_logins two_sessions_started)"
  let ?sess = "\<lparr>userName = ''trader'', accessToken = ''jwt1'', tokenExpiresAt = 1704067200000\<rparr>"
  let ?d = "\<lparr>newToken = Some ''jwt2'', success = True\<rparr>"
  let ?c = "token_refresh_cycle example_answers ?srv"
  have run: "server_run cfg_default epoch server_two_logins two_sessions_started
               = (?srv, snd (server_run cfg_default epoch server_two_logins two_sessions_started))"
    by simp
  have ok: "reg_ok (heap ?srv) (streams ?srv)"
    using server_run_inv[OF server_ok_initial run]
    by (simp add: server_two_logins_def server_ok_def)
  have reg: "streams ?srv = [(''S'', 0), (''T'', 1)]" by code_simp
  have mS: "(''S'', 0) \<in> set (streams ?srv)" and mT: "(''T'', 1) \<in> set (streams ?srv)"
    unfolding reg by simp_all
  have aS: "example_answers ''S'' = (Resolved ?d, 1704070200000)"
    and aT: "example_answers ''T'' = (Rejected, 1704070200000)"
    by (simp_all add: example_answers_def)
  note S = token_refresh_frame
             [of ?srv "''S''" 0 example_answers "Resolved ?d" 1704070200000
                 "heap ?srv ! 0" "heap ?c ! 0", OF ok mS aS refl refl]
  note T = token_refresh_frame
             [of ?srv "''T''" 1 example_answers Rejected 1704070200000
                 "heap ?srv ! 1" "heap ?c ! 1", OF ok mT aT refl refl]
  have sess: "map_of (sessionStore ?srv) ''S'' = Some ?sess" by code_simp
  have "Resolved ?d = Resolved ?d \<and> success ?d \<and>
        map_of (sessionStore ?srv) ''S'' = Some ?sess \<and> accessToken ?sess \<noteq> []"
    using sess by simp
  with S have "token (socket (heap ?c ! 0))
              = (case newToken ?d of
                   Some t \<Rightarrow> if t \<noteq> [] then t else accessToken ?sess
                 | None \<Rightarrow> accessToken ?sess)"
    by blast
  then have g: "token (socket (heap ?c ! 0)) = ''jwt2''" by simp
  have "token (socket (heap ?c ! 1)) = token (socket (heap ?srv ! 1))" using T by blast
  moreover have toks: "map (token \<circ> socket) (heap ?srv) = [''jwt1'', ''jwt9'']" by code_simp
  moreover have "token (socket (heap ?srv ! 1)) = ''jwt9''" by code_simp
  ultimately have b: "token (socket (heap ?c ! 1)) = ''jwt9''" by simp
  have ag: "aggregator (heap ?c ! 0) = aggregator (heap ?srv ! 0)" using S by blast
  have bk: "bids (aggregator (heap ?srv ! 0)) = [(100, 5)]" by code_simp
  have tm: "intervalId (aggregator (heap ?srv ! 0))" by code_simp
  show ?thesis using reg toks g b ag bk tm by (simp only:)
qed

end
